theory Spec2Isabelle
  imports Main "HOL-Library.AList"
begin

section \<open>JavaScript values and the two error classes of \<^verbatim>\<open>index.js\<close>\<close>

text \<open>
  An instance of \<^verbatim>\<open>Error\<close> is represented by its \<^verbatim>\<open>name\<close> and its
  \<^verbatim>\<open>message\<close>; the two subclasses of the library extend that record with the
  fields their constructors assign.
\<close>

record js_error =
  name :: string
  message :: string

text \<open>
  The values an operation can fail with (throw, or reject its promise with):
  \<^verbatim>\<open>undefined\<close>, \<^verbatim>\<open>null\<close>, booleans, integral numbers, strings and instances
  of \<^verbatim>\<open>Error\<close>. Numbers, here and for delays and counters below, are mathematical
  integers: JavaScript's doubles compute exactly and print in decimal on the safe range
  (below \<open>2 ^ 53\<close> in magnitude, \<open>safe_integer\<close> below), and that is the range modelled;
  non-integral numbers are not represented. Values whose conversion to a string itself throws (symbols, objects
  with a throwing \<^verbatim>\<open>toString\<close>) are outside this universe.
\<close>

datatype jsval =
    JUndefined
  | JNull
  | JBool bool
  | JNum int
  | JStr string
  | JError js_error

text \<open>
  \<^verbatim>\<open>Number.isSafeInteger\<close>: the integers on which a double and its arithmetic are
  exact and \<^verbatim>\<open>String\<close> prints the decimal digits. Outside this range a double rounds,
  overflows to \<^verbatim>\<open>Infinity\<close> or prints in exponent notation, which the integers of this
  model do not; a statement about the value of a number carries the hypothesis that the
  number is in this range.
\<close>

definition safe_integer :: "int \<Rightarrow> bool" where
  "safe_integer n \<longleftrightarrow> \<bar>n\<bar> < 2 ^ 53"

text \<open>The values of the universe whose numbers are in that range.\<close>

fun modelled_value :: "jsval \<Rightarrow> bool" where
  "modelled_value (JNum n) = safe_integer n"
| "modelled_value v = True"

subsection \<open>Conversion to strings\<close>

fun string_of_nat :: "nat \<Rightarrow> string" where
  "string_of_nat n =
     (if n < 10 then [''0123456789'' ! n]
      else string_of_nat (n div 10) @ [''0123456789'' ! (n mod 10)])"

declare string_of_nat.simps [simp del]

definition string_of_int :: "int \<Rightarrow> string" where
  "string_of_int i = (if i < 0 then ''-'' @ string_of_nat (nat (- i)) else string_of_nat (nat i))"

text \<open>
  The abstract operation \<^verbatim>\<open>ToString\<close> of the language, as \<^verbatim>\<open>String(v)\<close> computes it
  on the values \<open>v\<close> with \<open>modelled_value v\<close>.
\<close>

fun ToString :: "jsval \<Rightarrow> string" where
  "ToString JUndefined = ''undefined''"
| "ToString JNull = ''null''"
| "ToString (JBool b) = (if b then ''true'' else ''false'')"
| "ToString (JNum n) = string_of_int n"
| "ToString (JStr s) = s"
| "ToString (JError e) =
     (if name e = [] then message e
      else if message e = [] then name e
      else name e @ '': '' @ message e)"

text \<open>
  \<^verbatim>\<open>new Error(v)\<close>: the constructor stores \<^verbatim>\<open>ToString(v)\<close> as the message unless
  \<^verbatim>\<open>v\<close> is \<^verbatim>\<open>undefined\<close>; then no message is stored and the instance shows the
  empty message of \<^verbatim>\<open>Error.prototype\<close>.
\<close>

definition Error_new :: "jsval \<Rightarrow> js_error" where
  "Error_new v = \<lparr>name = ''Error'', message = (if v = JUndefined then [] else ToString v)\<rparr>"

text \<open>\<^verbatim>\<open>v instanceof Error\<close>\<close>

fun instanceof_Error :: "jsval \<Rightarrow> bool" where
  "instanceof_Error (JError e) = True"
| "instanceof_Error v = False"

subsection \<open>\<^verbatim>\<open>class TimeoutError extends Error\<close>\<close>

text \<open>The field \<^verbatim>\<open>id\<close> of the source is \<open>ident\<close> here.\<close>

record timeout_error = js_error +
  code :: string
  ident :: string

text \<open>
  \<^verbatim>\<open>super(reason || `Timeout ${id} cancelled`)\<close>: an absent reason is \<^verbatim>\<open>undefined\<close>,
  and \<^verbatim>\<open>||\<close> also discards the empty string, the one falsy string.
\<close>

definition TimeoutError_new :: "string \<Rightarrow> string option \<Rightarrow> timeout_error" where
  "TimeoutError_new i reason =
     \<lparr>name = ''TimeoutError'',
      message = (case reason of
                   None \<Rightarrow> ''Timeout '' @ i @ '' cancelled''
                 | Some r \<Rightarrow> if r = [] then ''Timeout '' @ i @ '' cancelled'' else r),
      code = ''ETIMEOUT'',
      ident = i\<rparr>"

subsection \<open>\<^verbatim>\<open>class RetryError extends Error\<close>\<close>

record retry_error = js_error +
  cause :: js_error
  attempts :: int
  finalDelay :: int

definition RetryError_new :: "jsval \<Rightarrow> int \<Rightarrow> int \<Rightarrow> retry_error" where
  "RetryError_new originalError attemptsMade finalDelay' =
     \<lparr>name = ''RetryError'',
      message = ''Retry failed after '' @ string_of_int attemptsMade @ '' attempts'',
      cause = (case originalError of JError e \<Rightarrow> e | _ \<Rightarrow> Error_new originalError),
      attempts = attemptsMade,
      finalDelay = finalDelay'\<rparr>"

section \<open>The retry executor \<^verbatim>\<open>waitWithRetry\<close>\<close>

text \<open>
  What a run of the executor does to the outside world is a sequence of events: it calls
  the operation (\<open>Invoke\<close>), and it awaits a timer (\<open>Sleep n\<close>, where \<open>n\<close> is the number
  of milliseconds it hands to \<^verbatim>\<open>setTimeout\<close>).
\<close>

datatype event = Invoke | Sleep int

definition invocations :: "event list \<Rightarrow> nat" where
  "invocations tr = length (filter (\<lambda>e. e = Invoke) tr)"

fun sleeps :: "event list \<Rightarrow> int list" where
  "sleeps [] = []"
| "sleeps (Invoke # tr) = sleeps tr"
| "sleeps (Sleep d # tr) = d # sleeps tr"

text \<open>
  The operation \<^verbatim>\<open>fn\<close> is a callback with effects of its own: \<open>fn i\<close> is the outcome
  of its call number \<open>i\<close> (counted from 0), \<open>Inr v\<close> when the awaited call produces \<open>v\<close>
  and \<open>Inl e\<close> when it throws or rejects with \<open>e\<close>; the \<^verbatim>\<open>try\<close> around
  \<^verbatim>\<open>return await fn()\<close> catches both. (A call whose promise never settles is not
  represented: the executor would wait for it for ever.) \<open>retry_loop\<close> is the \<^verbatim>\<open>while\<close> loop of the
  source together with the \<^verbatim>\<open>throw\<close> below it, which the \<^verbatim>\<open>break\<close> and the exit of
  the loop both reach. Its arguments are the local variables \<^verbatim>\<open>attempt\<close>,
  \<^verbatim>\<open>currentDelay\<close> and \<^verbatim>\<open>lastError\<close> and the events so far, \<open>tr\<close>; its result is
  the value returned (\<open>Inr\<close>) or the \<^verbatim>\<open>RetryError\<close> thrown (\<open>Inl\<close>), and the events of
  the whole run.
\<close>

function retry_loop ::
  "(nat \<Rightarrow> jsval + 'a) \<Rightarrow> int \<Rightarrow> string \<Rightarrow> int \<Rightarrow> int \<Rightarrow> jsval \<Rightarrow> event list
     \<Rightarrow> (retry_error + 'a) \<times> event list" where
  "retry_loop fn retries backoff attempt currentDelay lastError tr =
     (if attempt \<le> retries then
        (case fn (invocations tr) of
           Inr v \<Rightarrow> (Inr v, tr @ [Invoke])
         | Inl error \<Rightarrow>
             if attempt \<ge> retries
             then (Inl (RetryError_new error (attempt + 1) currentDelay), tr @ [Invoke])
             else
               let currentDelay' =
                     (if backoff = ''exponential'' then currentDelay * 2 else currentDelay)
               in retry_loop fn retries backoff (attempt + 1) currentDelay' error
                    (tr @ [Invoke, Sleep currentDelay']))
      else (Inl (RetryError_new lastError (attempt + 1) currentDelay), tr))"
  by pat_completeness auto
termination
  by (relation "measure (\<lambda>(fn, retries, backoff, attempt, currentDelay, lastError, tr).
        nat (retries - attempt))") auto

declare retry_loop.simps [simp del]

text \<open>The options object, each field optional, with the defaults of the parameter list.\<close>

record retry_options =
  retries :: "int option"
  delay :: "int option"
  backoff :: "string option"

definition waitWithRetry ::
  "(nat \<Rightarrow> jsval + 'a) \<Rightarrow> retry_options \<Rightarrow> (retry_error + 'a) \<times> event list" where
  "waitWithRetry fn opts =
     retry_loop fn
       (case retries opts of None \<Rightarrow> 3 | Some r \<Rightarrow> r)
       (case backoff opts of None \<Rightarrow> ''fixed'' | Some b \<Rightarrow> b)
       0
       (case delay opts of None \<Rightarrow> 2000 | Some d \<Rightarrow> d)
       JUndefined
       []"

subsection \<open>Auxiliary notions for the properties of the retry executor\<close>

text \<open>The factor by which one failed attempt multiplies \<^verbatim>\<open>currentDelay\<close>.\<close>

definition backoff_factor :: "string \<Rightarrow> int" where
  "backoff_factor b = (if b = ''exponential'' then 2 else 1)"

text \<open>
  The events of \<open>j\<close> failed attempts that are each followed by a sleep, when the delay
  is \<open>cd\<close> before the first of them and every failure multiplies it by \<open>m\<close>.
\<close>

definition failed_prefix :: "int \<Rightarrow> int \<Rightarrow> nat \<Rightarrow> event list" where
  "failed_prefix cd m j = concat (map (\<lambda>i. [Invoke, Sleep (cd * m ^ i)]) [1..<Suc j])"

text \<open>Two operations of the test suite: one that always fails with the same value, and
  one that fails twice and then succeeds.\<close>

definition failing_with :: "jsval \<Rightarrow> nat \<Rightarrow> jsval + string" where
  "failing_with v i = Inl v"

definition succeeds_third :: "nat \<Rightarrow> jsval + string" where
  "succeeds_third i = (if i < 2 then Inl (JStr ''retry'') else Inr ''success'')"

section \<open>The timeout registry\<close>

text \<open>
  The module state of \<^verbatim>\<open>index.js\<close> and the part of the runtime it acts on. A promise is
  a reference into the list \<open>promises\<close>; settling is permanent, so \<^verbatim>\<open>resolve\<close> and
  \<^verbatim>\<open>reject\<close> change a promise only while it is pending.
\<close>

datatype promise_state = Pending | Resolved string | Rejected timeout_error

text \<open>
  The closures of the source, by the variables they capture. \<open>Cleanup timeout id\<close> is
  \<^verbatim>\<open>() => { clearTimeout(timeout); activeTimeouts.delete(id); }\<close>, written in
  \<^verbatim>\<open>waitWithId\<close> (as \<^verbatim>\<open>cleanup\<close>) and again in \<^verbatim>\<open>updateWait\<close> (with
  \<^verbatim>\<open>newTimeout\<close>). \<open>CompletedCb controller id cleanup\<close> is the timer callback of
  \<^verbatim>\<open>waitWithId\<close>, \<open>UpdatedCb newController id\<close> the one of \<^verbatim>\<open>updateWait\<close>.
\<close>

datatype cleanup_closure = Cleanup nat string

datatype callback =
    CompletedCb nat string cleanup_closure
  | UpdatedCb nat string

text \<open>A pending timer: the delay handed to \<^verbatim>\<open>setTimeout\<close> and the callback.\<close>

record timer =
  ms :: int
  handler :: callback

text \<open>A value of the map: \<^verbatim>\<open>{ controller, cleanup }\<close>; the controller is its promise.\<close>

record entry =
  controller :: nat
  cleanup :: cleanup_closure

text \<open>
  \<^verbatim>\<open>activeTimeouts\<close> is a JavaScript \<^verbatim>\<open>Map\<close>, which keeps its entries in insertion
  order: an association list, where \<^verbatim>\<open>set\<close> on a present key replaces the value in
  place and on an absent key appends (\<^const>\<open>AList.update\<close>), and \<^verbatim>\<open>delete\<close> removes
  the key (\<^const>\<open>AList.delete\<close>). \<open>timers\<close> holds the timers that are scheduled and
  have neither fired nor been cleared, by handle; \<open>next_timer\<close> is the next handle
  \<^verbatim>\<open>setTimeout\<close> returns. \<open>console\<close> collects what \<^verbatim>\<open>console.error\<close> is given.
\<close>

record registry =
  activeTimeouts :: "(string \<times> entry) list"
  promises :: "promise_state list"
  timers :: "(nat \<times> timer) list"
  next_timer :: nat
  console :: "jsval list"

definition init_state :: registry where
  "init_state = \<lparr>activeTimeouts = [], promises = [], timers = [], next_timer = 0, console = []\<rparr>"

subsection \<open>Promises, timers and the map\<close>

text \<open>\<^verbatim>\<open>new TimeoutController()\<close> allocates a pending promise.\<close>

definition TimeoutController_new :: "registry \<Rightarrow> nat \<times> registry" where
  "TimeoutController_new s = (length (promises s), s\<lparr>promises := promises s @ [Pending]\<rparr>)"

definition settle :: "nat \<Rightarrow> promise_state \<Rightarrow> registry \<Rightarrow> registry" where
  "settle p outcome s =
     (if p < length (promises s) \<and> promises s ! p = Pending
      then s\<lparr>promises := (promises s)[p := outcome]\<rparr>
      else s)"

definition resolve :: "nat \<Rightarrow> string \<Rightarrow> registry \<Rightarrow> registry" where
  "resolve p v = settle p (Resolved v)"

definition reject :: "nat \<Rightarrow> timeout_error \<Rightarrow> registry \<Rightarrow> registry" where
  "reject p e = settle p (Rejected e)"

definition setTimeout :: "callback \<Rightarrow> int \<Rightarrow> registry \<Rightarrow> nat \<times> registry" where
  "setTimeout cb delay' s =
     (next_timer s,
      s\<lparr>timers := timers s @ [(next_timer s, \<lparr>ms = delay', handler = cb\<rparr>)],
        next_timer := Suc (next_timer s)\<rparr>)"

definition clearTimeout :: "nat \<Rightarrow> registry \<Rightarrow> registry" where
  "clearTimeout t s = s\<lparr>timers := AList.delete t (timers s)\<rparr>"

definition activeTimeouts_get :: "string \<Rightarrow> registry \<Rightarrow> entry option" where
  "activeTimeouts_get i s = map_of (activeTimeouts s) i"

definition activeTimeouts_set :: "string \<Rightarrow> entry \<Rightarrow> registry \<Rightarrow> registry" where
  "activeTimeouts_set i e s = s\<lparr>activeTimeouts := AList.update i e (activeTimeouts s)\<rparr>"

definition activeTimeouts_delete :: "string \<Rightarrow> registry \<Rightarrow> registry" where
  "activeTimeouts_delete i s = s\<lparr>activeTimeouts := AList.delete i (activeTimeouts s)\<rparr>"

text \<open>Calling a closure.\<close>

fun run_cleanup :: "cleanup_closure \<Rightarrow> registry \<Rightarrow> registry" where
  "run_cleanup (Cleanup timeout i) s = activeTimeouts_delete i (clearTimeout timeout s)"

fun run_callback :: "callback \<Rightarrow> registry \<Rightarrow> registry" where
  "run_callback (CompletedCb p i cl) s =
     run_cleanup cl (resolve p (''Completed timeout ID: '' @ i) s)"
| "run_callback (UpdatedCb p i) s =
     activeTimeouts_delete i (resolve p (''Updated timeout ID: '' @ i) s)"

subsection \<open>\<^verbatim>\<open>waitWithId\<close>, \<^verbatim>\<open>cancelWait\<close>, \<^verbatim>\<open>updateWait\<close>\<close>

text \<open>
  \<^verbatim>\<open>waitWithId\<close> draws its identifier from \<^verbatim>\<open>randomUUID()\<close>; the identifier drawn is
  the argument \<open>i\<close>, and nothing is assumed about it, not even that it is new. The closure
  \<^verbatim>\<open>cleanup\<close> reads the variable \<^verbatim>\<open>timeout\<close> when it is called, and by then the
  variable holds the handle that \<^verbatim>\<open>setTimeout\<close> returned. The result is the object
  \<^verbatim>\<open>{ id, promise }\<close>.
\<close>

definition waitWithId :: "string \<Rightarrow> int \<Rightarrow> registry \<Rightarrow> (string \<times> nat) \<times> registry" where
  "waitWithId i delay' s =
     (let (p, s1) = TimeoutController_new s;
          cl = Cleanup (next_timer s1) i;
          (timeout, s2) = setTimeout (CompletedCb p i cl) delay' s1;
          s3 = activeTimeouts_set i \<lparr>controller = p, cleanup = cl\<rparr> s2
      in ((i, p), s3))"

text \<open>The optional \<^verbatim>\<open>reason\<close> is \<open>None\<close> when the caller passes none.\<close>

definition cancelWait :: "string \<Rightarrow> string option \<Rightarrow> registry \<Rightarrow> bool \<times> registry" where
  "cancelWait i reason s =
     (case activeTimeouts_get i s of
        None \<Rightarrow> (False, s)
      | Some e \<Rightarrow>
          (True, run_cleanup (cleanup e) (reject (controller e) (TimeoutError_new i reason) s)))"

text \<open>\<open>Inl\<close> is the \<^verbatim>\<open>TimeoutError\<close> thrown, \<open>Inr\<close> the promise returned.\<close>

definition updateWait :: "string \<Rightarrow> int \<Rightarrow> registry \<Rightarrow> timeout_error + nat \<times> registry" where
  "updateWait i newMs s =
     (case activeTimeouts_get i s of
        None \<Rightarrow> Inl (TimeoutError_new i (Some ''Timeout not found''))
      | Some e \<Rightarrow>
          (let (p, s1) = TimeoutController_new s;
               s2 = run_cleanup (cleanup e) s1;
               (newTimeout, s3) = setTimeout (UpdatedCb p i) newMs s2;
               s4 = activeTimeouts_set i \<lparr>controller = p, cleanup = Cleanup newTimeout i\<rparr> s3
           in Inr (p, s4)))"

subsection \<open>Timers firing\<close>

text \<open>
  Natural completion: the runtime takes a scheduled timer off its list and calls the
  callback. Which timer fires when is the runtime's choice; \<open>fire t\<close> is the step for the
  timer with handle \<open>t\<close>, and does nothing when that timer is not scheduled any more.
\<close>

definition fire :: "nat \<Rightarrow> registry \<Rightarrow> registry" where
  "fire t s =
     (case map_of (timers s) t of
        None \<Rightarrow> s
      | Some tm \<Rightarrow> run_callback (handler tm) (clearTimeout t s))"

subsection \<open>The handler of \<^verbatim>\<open>process.on('exit')\<close>\<close>

text \<open>The two statements of the \<^verbatim>\<open>try\<close> block, for the entry \<open>e\<close> under the key \<open>i\<close>.\<close>

definition teardown_entry :: "string \<Rightarrow> entry \<Rightarrow> registry \<Rightarrow> registry" where
  "teardown_entry i e s =
     run_cleanup (cleanup e) (reject (controller e) (TimeoutError_new i (Some ''Process exiting'')) s)"

text \<open>The \<^verbatim>\<open>catch\<close> clause: \<^verbatim>\<open>console.error('Cleanup error:', e)\<close>.\<close>

definition console_error :: "jsval \<Rightarrow> registry \<Rightarrow> registry" where
  "console_error exn s = s\<lparr>console := console s @ [exn]\<rparr>"

text \<open>
  None of the calls in the \<^verbatim>\<open>try\<close> block throws in this program. To say what the
  \<^verbatim>\<open>catch\<close> clause is for, the handler takes a parameter \<open>raised\<close>, which tells for
  each key whether one of the two calls in its \<^verbatim>\<open>try\<close> block throws, and what:
  \<open>ThrowAtReject exn\<close> when the call \<^verbatim>\<open>entry.controller.reject(...)\<close> throws \<open>exn\<close>, and
  \<open>ThrowAtCleanup exn\<close> when that call returns and the call \<^verbatim>\<open>entry.cleanup()\<close> throws
  \<open>exn\<close>; a call that throws has no effect. Control then passes to the \<^verbatim>\<open>catch\<close>
  clause. The handler that the module registers is \<open>on_exit\<close>, where nothing is raised.
\<close>

datatype fault = ThrowAtReject jsval | ThrowAtCleanup jsval

fun thrown :: "fault \<Rightarrow> jsval" where
  "thrown (ThrowAtReject exn) = exn"
| "thrown (ThrowAtCleanup exn) = exn"

text \<open>The \<^verbatim>\<open>try\<close> statement, for the entry \<open>e\<close> under the key \<open>i\<close>.\<close>

definition try_teardown :: "fault option \<Rightarrow> string \<Rightarrow> entry \<Rightarrow> registry \<Rightarrow> registry" where
  "try_teardown flt i e s =
     (case flt of
        None \<Rightarrow> teardown_entry i e s
      | Some (ThrowAtReject exn) \<Rightarrow> console_error exn s
      | Some (ThrowAtCleanup exn) \<Rightarrow>
          console_error exn
            (reject (controller e) (TimeoutError_new i (Some ''Process exiting'')) s))"

text \<open>
  The \<^verbatim>\<open>for ... of\<close> loop over the map. The loop body deletes entries of the map it
  iterates over; an iterator of a \<^verbatim>\<open>Map\<close> visits, in insertion order, the entries that
  are still present when it reaches them, so the loop runs over the keys present at its
  start and skips a key that has been deleted meanwhile (the body adds none).
\<close>

fun exit_loop :: "(string \<Rightarrow> fault option) \<Rightarrow> string list \<Rightarrow> registry \<Rightarrow> registry" where
  "exit_loop raised [] s = s"
| "exit_loop raised (i # ids) s =
     (case activeTimeouts_get i s of
        None \<Rightarrow> exit_loop raised ids s
      | Some e \<Rightarrow> exit_loop raised ids (try_teardown (raised i) i e s))"

definition on_exit_raising :: "(string \<Rightarrow> fault option) \<Rightarrow> registry \<Rightarrow> registry" where
  "on_exit_raising raised s = exit_loop raised (map fst (activeTimeouts s)) s"

definition on_exit :: "registry \<Rightarrow> registry" where
  "on_exit = on_exit_raising (\<lambda>i. None)"

subsection \<open>Runs of the registry\<close>

text \<open>
  Everything that can happen to the registry: a call of one of the three exported
  functions, a timer firing, and the exit handler. A reachable state is \<open>run ops init_state\<close>
  for a list \<open>ops\<close> of such steps.
\<close>

datatype registry_op =
    Create string int
  | Cancel string "string option"
  | Update string int
  | Fire nat
  | Exit

fun exec :: "registry_op \<Rightarrow> registry \<Rightarrow> registry" where
  "exec (Create i d) s = snd (waitWithId i d s)"
| "exec (Cancel i reason) s = snd (cancelWait i reason s)"
| "exec (Update i d) s = (case updateWait i d s of Inl e \<Rightarrow> s | Inr (p, s') \<Rightarrow> s')"
| "exec (Fire t) s = fire t s"
| "exec Exit s = on_exit s"

fun run :: "registry_op list \<Rightarrow> registry \<Rightarrow> registry" where
  "run [] s = s"
| "run (x # xs) s = run xs (exec x s)"

subsection \<open>The invariant of the registry\<close>

text \<open>What a callback settles and which key it deletes; what a cleanup clears and deletes.\<close>

fun cb_promise :: "callback \<Rightarrow> nat" where
  "cb_promise (CompletedCb p i cl) = p"
| "cb_promise (UpdatedCb p i) = p"

fun cleanup_timer :: "cleanup_closure \<Rightarrow> nat" where
  "cleanup_timer (Cleanup t i) = t"

fun cleanup_ident :: "cleanup_closure \<Rightarrow> string" where
  "cleanup_ident (Cleanup t i) = i"

fun cb_ident :: "callback \<Rightarrow> string" where
  "cb_ident (CompletedCb p i cl) = cleanup_ident cl"
| "cb_ident (UpdatedCb p i) = i"

text \<open>
  An entry under the key \<open>k\<close> is in order when its cleanup deletes \<open>k\<close>, the timer its
  cleanup clears is scheduled and is the one that settles the entry's promise and deletes
  \<open>k\<close>, and its promise is pending.
\<close>

definition entry_ok :: "registry \<Rightarrow> string \<Rightarrow> entry \<Rightarrow> bool" where
  "entry_ok s k e \<longleftrightarrow>
     cleanup_ident (cleanup e) = k \<and>
     (case map_of (timers s) (cleanup_timer (cleanup e)) of
        None \<Rightarrow> False
      | Some tm \<Rightarrow> cb_promise (handler tm) = controller e \<and> cb_ident (handler tm) = k) \<and>
     controller e < length (promises s) \<and>
     promises s ! controller e = Pending"

definition timer_ok :: "registry \<Rightarrow> nat \<Rightarrow> timer \<Rightarrow> bool" where
  "timer_ok s t tm \<longleftrightarrow>
     t < next_timer s \<and>
     cb_promise (handler tm) < length (promises s) \<and>
     (case handler tm of
        CompletedCb p i cl \<Rightarrow> cl = Cleanup t i
      | UpdatedCb p i \<Rightarrow> True)"

text \<open>
  The invariant: keys, timer handles and the promises of the scheduled timers are each
  without repetition, and every entry and every timer is in order.
\<close>

definition registry_ok :: "registry \<Rightarrow> bool" where
  "registry_ok s \<longleftrightarrow>
     distinct (map fst (activeTimeouts s)) \<and>
     distinct (map fst (timers s)) \<and>
     distinct (map (\<lambda>x. cb_promise (handler (snd x))) (timers s)) \<and>
     list_all (\<lambda>x. entry_ok s (fst x) (snd x)) (activeTimeouts s) \<and>
     list_all (\<lambda>x. timer_ok s (fst x) (snd x)) (timers s)"

text \<open>A promise that no entry holds and no scheduled timer settles.\<close>

definition unreferenced :: "nat \<Rightarrow> registry \<Rightarrow> bool" where
  "unreferenced p s \<longleftrightarrow>
     list_all (\<lambda>x. controller (snd x) \<noteq> p) (activeTimeouts s) \<and>
     list_all (\<lambda>x. cb_promise (handler (snd x)) \<noteq> p) (timers s)"

text \<open>A fault in the exit handler for the key \<open>k\<close> and for no other.\<close>

definition raise_for :: "string \<Rightarrow> fault \<Rightarrow> string \<Rightarrow> fault option" where
  "raise_for k flt i = (if i = k then Some flt else None)"

section \<open>Properties of the retry executor\<close>

lemma invocations_append: "invocations (xs @ ys) = invocations xs + invocations ys"
  by (simp add: invocations_def)

lemma invocations_failed_prefix: "invocations (failed_prefix cd m j) = j"
  by (induction j) (simp_all add: failed_prefix_def invocations_def)

lemma sleeps_append: "sleeps (xs @ ys) = sleeps xs @ sleeps ys"
  by (induction xs rule: sleeps.induct) simp_all

lemma sleeps_failed_prefix: "sleeps (failed_prefix cd m j) = map (\<lambda>i. cd * m ^ i) [1..<Suc j]"
  by (induction j) (simp_all add: failed_prefix_def sleeps_append)

lemma retry_loop_fail_step:
  assumes "attempt < r" and "fn (invocations tr) = Inl e"
  shows "retry_loop fn r b attempt cd le tr =
         retry_loop fn r b (attempt + 1) (cd * backoff_factor b) e
           (tr @ [Invoke, Sleep (cd * backoff_factor b)])"
  using assms by (subst retry_loop.simps) (simp add: backoff_factor_def Let_def)

lemma retry_loop_failed_prefix:
  assumes "attempt + int j \<le> r"
    and "\<forall>i<j. isl (fn (invocations tr + i))"
  shows "\<exists>le'. (j = 0 \<longrightarrow> le' = le) \<and> (0 < j \<longrightarrow> fn (invocations tr + (j - 1)) = Inl le') \<and>
         retry_loop fn r b attempt cd le tr =
         retry_loop fn r b (attempt + int j) (cd * backoff_factor b ^ j) le'
           (tr @ failed_prefix cd (backoff_factor b) j)"
  using assms
proof (induction j)
  case 0
  then show ?case by (simp add: failed_prefix_def)
next
  case (Suc j)
  then obtain le' where eq: "retry_loop fn r b attempt cd le tr =
         retry_loop fn r b (attempt + int j) (cd * backoff_factor b ^ j) le'
           (tr @ failed_prefix cd (backoff_factor b) j)"
    by force
  from Suc.prems obtain e where e: "fn (invocations tr + j) = Inl e"
    by (metis isl_def lessI)
  have "retry_loop fn r b (attempt + int j) (cd * backoff_factor b ^ j) le'
           (tr @ failed_prefix cd (backoff_factor b) j) =
        retry_loop fn r b (attempt + int j + 1) (cd * backoff_factor b ^ j * backoff_factor b) e
           ((tr @ failed_prefix cd (backoff_factor b) j) @ [Invoke, Sleep (cd * backoff_factor b ^ j * backoff_factor b)])"
    using Suc.prems e
    by (intro retry_loop_fail_step) (simp_all add: invocations_append invocations_failed_prefix)
  with eq e show ?case
    by (simp add: failed_prefix_def algebra_simps)
qed

lemma retry_loop_exhausted:
  assumes "attempt = r" and "fn (invocations tr) = Inl e"
  shows "retry_loop fn r b attempt cd le tr = (Inl (RetryError_new e (r + 1) cd), tr @ [Invoke])"
  using assms by (subst retry_loop.simps) simp

lemma retry_loop_success:
  assumes "attempt \<le> r" and "fn (invocations tr) = Inr v"
  shows "retry_loop fn r b attempt cd le tr = (Inr v, tr @ [Invoke])"
  using assms by (subst retry_loop.simps) simp

lemma retry_loop_always_failing:
  assumes "0 \<le> r" and "\<forall>i. isl (fn i)"
  shows "\<exists>e. fn (nat r) = Inl e \<and>
           retry_loop fn r b 0 d le [] =
             (Inl (RetryError_new e (r + 1) (d * backoff_factor b ^ nat r)),
              failed_prefix d (backoff_factor b) (nat r) @ [Invoke])"
proof -
  from assms(2) obtain e where e: "fn (nat r) = Inl e"
    by (metis isl_def)
  from assms have "0 + int (nat r) \<le> r" and "\<forall>i<nat r. isl (fn (invocations [] + i))"
    by simp_all
  from retry_loop_failed_prefix [OF this, where b = b and cd = d and le = le]
  obtain le' where "retry_loop fn r b 0 d le [] =
      retry_loop fn r b (0 + int (nat r)) (d * backoff_factor b ^ nat r) le'
        ([] @ failed_prefix d (backoff_factor b) (nat r))"
    by blast
  also have "\<dots> = (Inl (RetryError_new e (r + 1) (d * backoff_factor b ^ nat r)),
      ([] @ failed_prefix d (backoff_factor b) (nat r)) @ [Invoke])"
    using assms(1) e
    by (intro retry_loop_exhausted) (simp_all add: invocations_append invocations_failed_prefix)
  finally show ?thesis using e by simp
qed

lemma attempts_RetryError_new: "attempts (RetryError_new e n d) = n"
  and finalDelay_RetryError_new: "finalDelay (RetryError_new e n d) = d"
  by (simp_all add: RetryError_new_def)

lemma concat_replicate_commute: "concat (replicate j xs) @ xs = xs @ concat (replicate j xs)"
  by (induction j) simp_all

lemma failed_prefix_fixed: "failed_prefix d 1 j = concat (replicate j [Invoke, Sleep d])"
proof (induction j)
  case 0
  show ?case by (simp add: failed_prefix_def)
next
  case (Suc j)
  have "failed_prefix d 1 (Suc j) = failed_prefix d 1 j @ [Invoke, Sleep d]"
    by (simp add: failed_prefix_def)
  with Suc show ?case
    using concat_replicate_commute [of j "[Invoke, Sleep d]"] by simp
qed

text \<open>
  Claim C1. With backoff \<^verbatim>\<open>"exponential"\<close>, \<open>r \<ge> 0\<close> retries, a delay \<open>d\<close> for
  which \<open>d * 2 ^ r\<close> is a safe integer (so that every doubling is exact) and an
  operation that fails on every call, the run is: call, sleep \<open>d * 2\<close>, call, sleep
  \<open>d * 4\<close>, ..., sleep \<open>d * 2 ^ r\<close>, call; so the sleeps are \<open>d * 2, ..., d * 2 ^ r\<close>,
  the delay being doubled before each sleep, and the run ends by throwing a
  \<^verbatim>\<open>RetryError\<close> whose \<^verbatim>\<open>finalDelay\<close> is \<open>d * 2 ^ r\<close>.
\<close>

theorem retry_exponential_always_failing:
  assumes "0 \<le> r" and "\<forall>i. isl (fn i)" and "safe_integer (d * 2 ^ nat r)"
  shows "\<exists>e tr.
    waitWithRetry fn \<lparr>retries = Some r, delay = Some d, backoff = Some ''exponential''\<rparr> = (Inl e, tr) \<and>
    tr = concat (map (\<lambda>i. [Invoke, Sleep (d * 2 ^ i)]) [1..<Suc (nat r)]) @ [Invoke] \<and>
    sleeps tr = map (\<lambda>i. d * 2 ^ i) [1..<Suc (nat r)] \<and>
    finalDelay e = d * 2 ^ nat r"
proof -
  from retry_loop_always_failing [OF assms(1,2), of "''exponential''" d JUndefined]
  obtain e where "retry_loop fn r ''exponential'' 0 d JUndefined [] =
      (Inl (RetryError_new e (r + 1) (d * 2 ^ nat r)), failed_prefix d 2 (nat r) @ [Invoke])"
    by (auto simp: backoff_factor_def)
  then show ?thesis
    by (simp add: waitWithRetry_def finalDelay_RetryError_new sleeps_append sleeps_failed_prefix)
       (simp add: failed_prefix_def)
qed

text \<open>The instance \<open>r = 2\<close>, \<open>d = 100\<close> of the test suite: sleeps of 200 and 400
  milliseconds, and a reported \<^verbatim>\<open>finalDelay\<close> of 400.\<close>

theorem retry_exponential_always_failing_witness:
  "(0::int) \<le> 2 \<and> (\<forall>i. isl (failing_with (JStr ''permanent'') i)) \<and>
   safe_integer (100 * 2 ^ nat 2) \<and>
   (\<exists>e tr.
      waitWithRetry (failing_with (JStr ''permanent''))
        \<lparr>retries = Some 2, delay = Some 100, backoff = Some ''exponential''\<rparr> = (Inl e, tr) \<and>
      tr = [Invoke, Sleep 200, Invoke, Sleep 400, Invoke] \<and>
      sleeps tr = [200, 400] \<and>
      finalDelay e = 400)"
  using retry_exponential_always_failing [of 2 "failing_with (JStr ''permanent'')" 100]
  by (simp add: failing_with_def safe_integer_def upt_rec)

text \<open>
  Claim C2. With backoff \<^verbatim>\<open>"fixed"\<close>, \<open>r \<ge> 0\<close> retries, delay \<open>d\<close> and an operation
  that fails on every call, the operation is called exactly \<open>r + 1\<close> times, every call
  but the last is followed by a sleep of \<open>d\<close> milliseconds, and the run ends by throwing
  a \<^verbatim>\<open>RetryError\<close> with \<^verbatim>\<open>attempts = r + 1\<close> and \<^verbatim>\<open>finalDelay = d\<close>. For
  \<open>r = 0\<close> that is one call, no sleep, and \<^verbatim>\<open>attempts = 1\<close>.
\<close>

theorem retry_fixed_always_failing:
  assumes "0 \<le> r" and "\<forall>i. isl (fn i)"
  shows "\<exists>e tr.
    waitWithRetry fn \<lparr>retries = Some r, delay = Some d, backoff = Some ''fixed''\<rparr> = (Inl e, tr) \<and>
    tr = concat (replicate (nat r) [Invoke, Sleep d]) @ [Invoke] \<and>
    invocations tr = nat r + 1 \<and>
    sleeps tr = replicate (nat r) d \<and>
    attempts e = r + 1 \<and>
    finalDelay e = d \<and>
    (r = 0 \<longrightarrow> tr = [Invoke] \<and> attempts e = 1)"
proof -
  from retry_loop_always_failing [OF assms, of "''fixed''" d JUndefined]
  obtain e where "retry_loop fn r ''fixed'' 0 d JUndefined [] =
      (Inl (RetryError_new e (r + 1) d), failed_prefix d 1 (nat r) @ [Invoke])"
    by (auto simp: backoff_factor_def)
  moreover have "sleeps (failed_prefix d 1 (nat r)) = replicate (nat r) d"
    by (simp add: sleeps_failed_prefix map_replicate_const)
  ultimately show ?thesis
    by (simp add: waitWithRetry_def finalDelay_RetryError_new attempts_RetryError_new
          sleeps_append invocations_append invocations_failed_prefix)
       (simp add: failed_prefix_fixed invocations_def)
qed

theorem retry_fixed_always_failing_witness:
  "(0::int) \<le> 2 \<and> (\<forall>i. isl (failing_with (JStr ''fail'') i)) \<and>
   (\<exists>e tr.
      waitWithRetry (failing_with (JStr ''fail''))
        \<lparr>retries = Some 2, delay = Some 100, backoff = Some ''fixed''\<rparr> = (Inl e, tr) \<and>
      tr = [Invoke, Sleep 100, Invoke, Sleep 100, Invoke] \<and>
      invocations tr = 3 \<and> sleeps tr = [100, 100] \<and> attempts e = 3 \<and> finalDelay e = 100)"
  using retry_fixed_always_failing [of 2 "failing_with (JStr ''fail'')" 100]
  by (simp add: failing_with_def numeral_3_eq_3 numeral_2_eq_2)

text \<open>
  Claim C8. When the first \<open>k - 1\<close> calls of the operation fail and call \<open>k\<close> succeeds
  with \<open>v\<close>, where \<open>k \<le> r + 1\<close> for the effective number \<open>r\<close> of retries, the
  executor returns \<open>v\<close>, has called the operation exactly \<open>k\<close> times and has slept
  exactly \<open>k - 1\<close> times; the last event is the successful call, with no sleep and no
  further call after it.
\<close>

theorem retry_succeeds_on_kth:
  assumes "0 < k" and "int k \<le> (case retries opts of None \<Rightarrow> 3 | Some r \<Rightarrow> r) + 1"
    and "\<forall>i<k - 1. isl (fn i)" and "fn (k - 1) = Inr v"
  shows "\<exists>tr. waitWithRetry fn opts = (Inr v, tr) \<and>
           invocations tr = k \<and> length (sleeps tr) = k - 1 \<and> last tr = Invoke"
proof -
  define r where "r = (case retries opts of None \<Rightarrow> 3 | Some r \<Rightarrow> r)"
  define b where "b = (case backoff opts of None \<Rightarrow> ''fixed'' | Some b \<Rightarrow> b)"
  define d where "d = (case delay opts of None \<Rightarrow> 2000 | Some d \<Rightarrow> (d::int))"
  from assms have "0 + int (k - 1) \<le> r" and "\<forall>i<k - 1. isl (fn (invocations [] + i))"
    by (simp_all add: r_def invocations_def)
  from retry_loop_failed_prefix [OF this, where b = b and cd = d and le = JUndefined]
  obtain le' where "retry_loop fn r b 0 d JUndefined [] =
      retry_loop fn r b (0 + int (k - 1)) (d * backoff_factor b ^ (k - 1)) le'
        ([] @ failed_prefix d (backoff_factor b) (k - 1))"
    by blast
  also have "\<dots> = (Inr v, ([] @ failed_prefix d (backoff_factor b) (k - 1)) @ [Invoke])"
    using assms
    by (intro retry_loop_success)
       (simp_all add: r_def invocations_append invocations_failed_prefix)
  finally have "waitWithRetry fn opts = (Inr v, failed_prefix d (backoff_factor b) (k - 1) @ [Invoke])"
    by (simp add: waitWithRetry_def r_def b_def d_def)
  then show ?thesis using assms(1)
    by (simp add: invocations_append invocations_failed_prefix sleeps_append sleeps_failed_prefix)
       (simp add: invocations_def)
qed

theorem retry_succeeds_on_kth_witness:
  "(0::nat) < 3 \<and>
   int 3 \<le> (case retries \<lparr>retries = Some 3, delay = Some 50, backoff = None\<rparr> of
              None \<Rightarrow> 3 | Some r \<Rightarrow> r) + 1 \<and>
   isl (succeeds_third 0) \<and> isl (succeeds_third 1) \<and> succeeds_third (3 - 1) = Inr ''success'' \<and>
   (\<exists>tr. waitWithRetry succeeds_third \<lparr>retries = Some 3, delay = Some 50, backoff = None\<rparr> =
           (Inr ''success'', tr) \<and>
         invocations tr = 3 \<and> length (sleeps tr) = 3 - 1 \<and> last tr = Invoke)"
  using retry_succeeds_on_kth [of 3 "\<lparr>retries = Some 3, delay = Some 50, backoff = None\<rparr>"
          succeeds_third "''success''"]
  by (simp add: succeeds_third_def)

lemma retry_loop_fixed_eq:
  assumes "b \<noteq> ''exponential''"
  shows "retry_loop fn r b a cd le tr = retry_loop fn r ''fixed'' a cd le tr"
  using assms
proof (induction fn r b a cd le tr rule: retry_loop.induct)
  case (1 fn r b a cd le tr)
  show ?case
  proof (cases "a < r \<and> isl (fn (invocations tr))")
    case True
    then obtain e where e: "fn (invocations tr) = Inl e"
      by (auto simp: isl_def)
    have "retry_loop fn r b (a + 1) cd e (tr @ [Invoke, Sleep cd]) =
          retry_loop fn r ''fixed'' (a + 1) cd e (tr @ [Invoke, Sleep cd])"
      using "1.IH" [of e cd] "1.prems" True e by simp
    then show ?thesis
      using True e "1.prems"
      by (subst retry_loop.simps, subst (2) retry_loop.simps) simp
  next
    case False
    then show ?thesis
      by (subst retry_loop.simps, subst (2) retry_loop.simps) (auto split: sum.splits)
  qed
qed

lemma retry_loop_delay_unchanged:
  assumes "b \<noteq> ''exponential''" and "retry_loop fn r b a cd le tr = (res, tr')"
  shows "(\<exists>suf. tr' = tr @ suf \<and> (\<forall>x\<in>set (sleeps suf). x = cd)) \<and>
         (\<forall>e. res = Inl e \<longrightarrow> finalDelay e = cd)"
  using assms
proof (induction fn r b a cd le tr rule: retry_loop.induct)
  case (1 fn r b a cd le tr)
  show ?case
  proof (cases "a < r \<and> isl (fn (invocations tr))")
    case True
    then obtain e where e: "fn (invocations tr) = Inl e"
      by (auto simp: isl_def)
    have "retry_loop fn r b (a + 1) cd e (tr @ [Invoke, Sleep cd]) = (res, tr')"
      using "1.prems" True e by (subst (asm) retry_loop.simps) simp
    from "1.IH" [of e cd, OF _ e _ _ "1.prems"(1) this] True
    obtain suf where "tr' = (tr @ [Invoke, Sleep cd]) @ suf" "\<forall>x\<in>set (sleeps suf). x = cd"
      and fin: "\<forall>e. res = Inl e \<longrightarrow> finalDelay e = cd"
      using "1.prems"(1) by auto
    then have "tr' = tr @ ([Invoke, Sleep cd] @ suf) \<and>
               (\<forall>x\<in>set (sleeps ([Invoke, Sleep cd] @ suf)). x = cd)"
      by simp
    with fin show ?thesis by blast
  next
    case False
    with "1.prems"(2) show ?thesis
      by (subst (asm) retry_loop.simps)
         (auto split: sum.splits if_splits simp: finalDelay_RetryError_new)
  qed
qed

text \<open>
  Claim C10. Every value of \<^verbatim>\<open>backoff\<close> other than the string \<^verbatim>\<open>"exponential"\<close>
  gives the run that \<^verbatim>\<open>"fixed"\<close> gives, for every operation and all other options:
  the same result and the same events. In that run every sleep lasts the configured
  delay, and a \<^verbatim>\<open>RetryError\<close> reports the configured delay as \<^verbatim>\<open>finalDelay\<close>.
\<close>

theorem retry_backoff_other_than_exponential:
  assumes "b \<noteq> ''exponential''"
  shows "waitWithRetry fn (opts\<lparr>backoff := Some b\<rparr>) = waitWithRetry fn (opts\<lparr>backoff := Some ''fixed''\<rparr>) \<and>
         (\<forall>x\<in>set (sleeps (snd (waitWithRetry fn (opts\<lparr>backoff := Some b\<rparr>)))).
            x = (case delay opts of None \<Rightarrow> 2000 | Some d \<Rightarrow> d)) \<and>
         (\<forall>e. fst (waitWithRetry fn (opts\<lparr>backoff := Some b\<rparr>)) = Inl e \<longrightarrow>
            finalDelay e = (case delay opts of None \<Rightarrow> 2000 | Some d \<Rightarrow> d))"
proof -
  obtain res tr where run: "waitWithRetry fn (opts\<lparr>backoff := Some b\<rparr>) = (res, tr)"
    by (cases "waitWithRetry fn (opts\<lparr>backoff := Some b\<rparr>)")
  then have "retry_loop fn (case retries opts of None \<Rightarrow> 3 | Some r \<Rightarrow> r) b 0
               (case delay opts of None \<Rightarrow> 2000 | Some d \<Rightarrow> d) JUndefined [] = (res, tr)"
    by (simp add: waitWithRetry_def)
  from retry_loop_delay_unchanged [OF assms this] run
  have "(\<forall>x\<in>set (sleeps (snd (waitWithRetry fn (opts\<lparr>backoff := Some b\<rparr>)))).
            x = (case delay opts of None \<Rightarrow> 2000 | Some d \<Rightarrow> d)) \<and>
         (\<forall>e. fst (waitWithRetry fn (opts\<lparr>backoff := Some b\<rparr>)) = Inl e \<longrightarrow>
            finalDelay e = (case delay opts of None \<Rightarrow> 2000 | Some d \<Rightarrow> d))"
    by auto
  moreover have "waitWithRetry fn (opts\<lparr>backoff := Some b\<rparr>) =
                 waitWithRetry fn (opts\<lparr>backoff := Some ''fixed''\<rparr>)"
    using retry_loop_fixed_eq [OF assms] by (simp add: waitWithRetry_def)
  ultimately show ?thesis by blast
qed

text \<open>A misspelt backoff on the always-failing operation of the test suite.\<close>

theorem retry_backoff_other_than_exponential_witness:
  "''exponentail'' \<noteq> ''exponential'' \<and>
   waitWithRetry (failing_with (JStr ''fail''))
     \<lparr>retries = Some 2, delay = Some 100, backoff = Some ''exponentail''\<rparr> =
   waitWithRetry (failing_with (JStr ''fail''))
     \<lparr>retries = Some 2, delay = Some 100, backoff = Some ''fixed''\<rparr> \<and>
   sleeps (snd (waitWithRetry (failing_with (JStr ''fail''))
     \<lparr>retries = Some 2, delay = Some 100, backoff = Some ''exponentail''\<rparr>)) = [100, 100] \<and>
   finalDelay (projl (fst (waitWithRetry (failing_with (JStr ''fail''))
     \<lparr>retries = Some 2, delay = Some 100, backoff = Some ''exponentail''\<rparr>))) = 100"
  using retry_backoff_other_than_exponential [of "''exponentail''" "failing_with (JStr ''fail'')"
          "\<lparr>retries = Some 2, delay = Some 100, backoff = Some ''fixed''\<rparr>"]
  by (simp add: waitWithRetry_def retry_loop.simps failing_with_def invocations_def
        finalDelay_RetryError_new)

text \<open>
  Claim C7, as amended. When the retries are exhausted, the cause of the \<^verbatim>\<open>RetryError\<close>
  is made from the last failure \<open>v\<close>: an instance of \<^verbatim>\<open>Error\<close> is the cause itself;
  \<^verbatim>\<open>undefined\<close> gives a new \<^verbatim>\<open>Error\<close> with the empty message; every other value
  (\<^verbatim>\<open>null\<close>, a boolean, a string, a number that is a safe integer) gives a new
  \<^verbatim>\<open>Error\<close> whose message is the textual representation of the value.
\<close>

theorem retry_exhausted_cause:
  assumes "0 \<le> r" and "\<forall>i. isl (fn i)"
    and "\<forall>v. fn (nat r) = Inl v \<longrightarrow> modelled_value v"
  shows "\<exists>e v. fst (waitWithRetry fn \<lparr>retries = Some r, delay = d, backoff = b\<rparr>) = Inl e \<and>
           fn (nat r) = Inl v \<and>
           modelled_value v \<and>
           cause e = (case v of
                        JError err \<Rightarrow> err
                      | JUndefined \<Rightarrow> \<lparr>name = ''Error'', message = []\<rparr>
                      | _ \<Rightarrow> \<lparr>name = ''Error'', message = ToString v\<rparr>)"
proof -
  let ?b = "case b of None \<Rightarrow> ''fixed'' | Some b' \<Rightarrow> b'"
  let ?d = "case d of None \<Rightarrow> 2000 | Some d' \<Rightarrow> d'"
  let ?fd = "?d * backoff_factor ?b ^ nat r"
  from retry_loop_always_failing [OF assms(1,2), of ?b ?d JUndefined]
  obtain v where v: "fn (nat r) = Inl v"
    and loop: "retry_loop fn r ?b 0 ?d JUndefined [] =
      (Inl (RetryError_new v (r + 1) ?fd), failed_prefix ?d (backoff_factor ?b) (nat r) @ [Invoke])"
    by blast
  from assms(3) v have range: "modelled_value v"
    by blast
  have "cause (RetryError_new v (r + 1) ?fd) =
      (case v of
         JError err \<Rightarrow> err
       | JUndefined \<Rightarrow> \<lparr>name = ''Error'', message = []\<rparr>
       | _ \<Rightarrow> \<lparr>name = ''Error'', message = ToString v\<rparr>)"
    by (cases v) (simp_all add: RetryError_new_def Error_new_def)
  with v loop range show ?thesis
    by (intro exI [where x = "RetryError_new v (r + 1) ?fd"] exI [where x = v])
       (simp add: waitWithRetry_def)
qed

text \<open>The rejection value 42 of the test suite gives the message \<^verbatim>\<open>'42'\<close>.\<close>

theorem retry_exhausted_cause_witness:
  "(0::int) \<le> 1 \<and> (\<forall>i. isl (failing_with (JNum 42) i)) \<and>
   failing_with (JNum 42) (nat 1) = Inl (JNum 42) \<and> modelled_value (JNum 42) \<and>
   message (cause (projl (fst (waitWithRetry (failing_with (JNum 42))
      \<lparr>retries = Some 1, delay = None, backoff = None\<rparr>)))) = ''42''"
  using retry_exhausted_cause [of 1 "failing_with (JNum 42)" None None]
  by (auto simp: failing_with_def safe_integer_def string_of_int_def string_of_nat.simps)

text \<open>
  The claim as the specification words it fails for the failure value \<^verbatim>\<open>undefined\<close>
  (an operation that does \<^verbatim>\<open>Promise.reject()\<close>): it is not an \<^verbatim>\<open>Error\<close>, its textual
  representation is \<^verbatim>\<open>'undefined'\<close>, and the message of the cause is empty.
\<close>

theorem retry_cause_undefined_counterexample:
  "\<not> instanceof_Error JUndefined \<and>
   modelled_value JUndefined \<and>
   ToString JUndefined = ''undefined'' \<and>
   message (cause (projl (fst (waitWithRetry (failing_with JUndefined)
      \<lparr>retries = Some 0, delay = None, backoff = None\<rparr>)))) = [] \<and>
   message (cause (projl (fst (waitWithRetry (failing_with JUndefined)
      \<lparr>retries = Some 0, delay = None, backoff = None\<rparr>)))) \<noteq> ToString JUndefined"
  by (simp add: waitWithRetry_def retry_loop.simps failing_with_def invocations_def
        RetryError_new_def Error_new_def)

section \<open>Properties of the timeout registry\<close>

subsection \<open>The invariant holds in every reachable state\<close>

lemma invD_entry:
  assumes "registry_ok s" and "map_of (activeTimeouts s) k = Some e"
  shows "entry_ok s k e"
  using assms by (auto simp: registry_ok_def list_all_iff dest!: map_of_SomeD)

lemma invD_timer:
  assumes "registry_ok s" and "map_of (timers s) t = Some tm"
  shows "timer_ok s t tm"
  using assms by (auto simp: registry_ok_def list_all_iff dest!: map_of_SomeD)

lemma inv_same_promise:
  assumes "registry_ok s" and "map_of (timers s) t = Some tm" and "map_of (timers s) t' = Some tm'"
    and "cb_promise (handler tm) = cb_promise (handler tm')"
  shows "t = t'"
proof -
  from assms(1) have "inj_on (\<lambda>x. cb_promise (handler (snd x))) (set (timers s))"
    by (simp add: registry_ok_def distinct_map)
  moreover from assms have "(t, tm) \<in> set (timers s)" "(t', tm') \<in> set (timers s)"
    by (auto dest: map_of_SomeD)
  ultimately have "(t, tm) = (t', tm')"
    using assms(4) by (intro inj_onD [where f = "\<lambda>x. cb_promise (handler (snd x))"]) simp_all
  then show ?thesis by simp
qed

text \<open>Removing a timer together with the entry of its identifier.\<close>

lemma inv_remove:
  assumes inv: "registry_ok s" and tm: "map_of (timers s) t = Some tm"
    and reg: "activeTimeouts s' = AList.delete (cb_ident (handler tm)) (activeTimeouts s)"
    and tms: "timers s' = AList.delete t (timers s)"
    and nt: "next_timer s' = next_timer s"
    and len: "length (promises s) \<le> length (promises s')"
    and ps: "\<forall>q<length (promises s). q \<noteq> cb_promise (handler tm) \<longrightarrow> promises s' ! q = promises s ! q"
  shows "registry_ok s'"
proof -
  have d1: "distinct (map fst (activeTimeouts s'))"
    using inv by (simp add: reg registry_ok_def distinct_delete)
  have d2: "distinct (map fst (timers s'))"
    using inv by (simp add: tms registry_ok_def distinct_delete)
  have d3: "distinct (map (\<lambda>x. cb_promise (handler (snd x))) (timers s'))"
    using inv by (simp add: tms registry_ok_def AList.delete_eq distinct_map_filter)
  have e: "entry_ok s' k e" if "(k, e) \<in> set (activeTimeouts s')" for k e
  proof -
    from that have k: "k \<noteq> cb_ident (handler tm)" and "(k, e) \<in> set (activeTimeouts s)"
      by (auto simp: reg AList.delete_eq)
    with inv have ok: "entry_ok s k e"
      by (auto simp: registry_ok_def list_all_iff)
    then obtain tm' where tm': "map_of (timers s) (cleanup_timer (cleanup e)) = Some tm'"
      and p': "cb_promise (handler tm') = controller e" and i': "cb_ident (handler tm') = k"
      by (auto simp: entry_ok_def split: option.splits)
    have ne: "cleanup_timer (cleanup e) \<noteq> t"
      using tm tm' i' k by auto
    then have 1: "map_of (timers s') (cleanup_timer (cleanup e)) = Some tm'"
      using tm' by (simp add: tms delete_conv')
    have "controller e \<noteq> cb_promise (handler tm)"
      using inv_same_promise [OF inv tm' tm] p' ne by auto
    then have 2: "promises s' ! controller e = Pending" "controller e < length (promises s')"
      using ok ps len by (auto simp: entry_ok_def)
    from 1 2 ok p' i' show ?thesis
      by (simp add: entry_ok_def)
  qed
  have t: "timer_ok s' u um" if "(u, um) \<in> set (timers s')" for u um
  proof -
    from that have "(u, um) \<in> set (timers s)"
      by (auto simp: tms AList.delete_eq)
    with inv have "timer_ok s u um"
      by (auto simp: registry_ok_def list_all_iff)
    then show ?thesis
      using len by (auto simp: timer_ok_def nt split: callback.splits)
  qed
  from d1 d2 d3 e t show ?thesis
    by (auto simp: registry_ok_def list_all_iff)
qed

lemma set_AList_update:
  "(k, e) \<in> set (AList.update i v al) \<Longrightarrow> (k = i \<and> e = v) \<or> (k, e) \<in> set al"
  by (induction al) (auto split: if_splits)

lemma set_AList_update':
  "x \<in> set (AList.update i v al) \<Longrightarrow> x = (i, v) \<or> x \<in> set al"
  by (induction al) (auto split: if_splits)

lemma set_AList_update_subset: "set (AList.update i v al) \<subseteq> insert (i, v) (set al)"
  using set_AList_update' by fast

text \<open>Installing a timer for a promise that no timer refers to, and the entry that owns it.\<close>

lemma inv_install:
  assumes inv: "registry_ok s" and p: "p < length (promises s)" "promises s ! p = Pending"
    and unused: "\<forall>x\<in>set (timers s). cb_promise (handler (snd x)) \<noteq> p"
    and cb: "cb = CompletedCb p i (Cleanup (next_timer s) i) \<or> cb = UpdatedCb p i"
    and reg: "activeTimeouts s' =
        AList.update i \<lparr>controller = p, cleanup = Cleanup (next_timer s) i\<rparr> (activeTimeouts s)"
    and tms: "timers s' = timers s @ [(next_timer s, \<lparr>ms = d, handler = cb\<rparr>)]"
    and nt: "next_timer s' = Suc (next_timer s)"
    and ps: "promises s' = promises s"
  shows "registry_ok s'"
proof -
  have fresh: "next_timer s \<notin> fst ` set (timers s)"
    using inv by (fastforce simp: registry_ok_def list_all_iff timer_ok_def)
  have cbp: "cb_promise cb = p" and cbi: "cb_ident cb = i"
    using cb by auto
  have d1: "distinct (map fst (activeTimeouts s'))"
    using inv by (simp add: reg registry_ok_def distinct_update)
  have d2: "distinct (map fst (timers s'))"
    using inv fresh by (simp add: tms registry_ok_def)
  have d3: "distinct (map (\<lambda>x. cb_promise (handler (snd x))) (timers s'))"
    using inv unused by (auto simp: tms registry_ok_def cbp)
  from fresh have fresh': "map_of (timers s) (next_timer s) = None"
    by (simp add: map_of_eq_None_iff)
  have new: "map_of (timers s') (next_timer s) = Some \<lparr>ms = d, handler = cb\<rparr>"
    using fresh' by (simp add: tms map_add_def)
  have old: "map_of (timers s') u = Some um" if "map_of (timers s) u = Some um" for u um
    using that by (simp add: tms map_add_def)
  have e: "entry_ok s' k e" if "(k, e) \<in> set (activeTimeouts s')" for k e
  proof -
    from that consider "k = i" "e = \<lparr>controller = p, cleanup = Cleanup (next_timer s) i\<rparr>"
      | "(k, e) \<in> set (activeTimeouts s)"
      unfolding reg by (auto dest: set_AList_update)
    then show ?thesis
    proof cases
      case 1
      then show ?thesis
        using new p by (simp add: entry_ok_def ps cbp cbi)
    next
      case 2
      with inv have "entry_ok s k e"
        by (auto simp: registry_ok_def list_all_iff)
      then show ?thesis
        by (auto simp: entry_ok_def ps split: option.splits dest: old)
    qed
  qed
  have t: "timer_ok s' u um" if "(u, um) \<in> set (timers s')" for u um
  proof -
    from that consider "u = next_timer s" "um = \<lparr>ms = d, handler = cb\<rparr>"
      | "(u, um) \<in> set (timers s)"
      by (auto simp: tms)
    then show ?thesis
    proof cases
      case 1
      then show ?thesis
        using p cb by (auto simp: timer_ok_def nt ps)
    next
      case 2
      with inv have "timer_ok s u um"
        by (auto simp: registry_ok_def list_all_iff)
      then show ?thesis
        by (auto simp: timer_ok_def nt ps split: callback.splits)
    qed
  qed
  from d1 d2 d3 e t show ?thesis
    by (auto simp: registry_ok_def list_all_iff)
qed

lemma settle_fields [simp]:
  "activeTimeouts (settle p st s) = activeTimeouts s"
  "timers (settle p st s) = timers s"
  "next_timer (settle p st s) = next_timer s"
  "console (settle p st s) = console s"
  "length (promises (settle p st s)) = length (promises s)"
  by (simp_all add: settle_def)

lemma settle_other: "q \<noteq> p \<Longrightarrow> promises (settle p st s) ! q = promises s ! q"
  by (simp add: settle_def)

lemma settle_pending:
  "p < length (promises s) \<Longrightarrow> promises s ! p = Pending \<Longrightarrow> promises (settle p st s) ! p = st"
  by (simp add: settle_def)

lemma settle_settled: "promises s ! p \<noteq> Pending \<Longrightarrow> settle p st s = s"
  by (simp add: settle_def)

lemma run_cleanup_fields [simp]:
  "activeTimeouts (run_cleanup cl s) = AList.delete (cleanup_ident cl) (activeTimeouts s)"
  "timers (run_cleanup cl s) = AList.delete (cleanup_timer cl) (timers s)"
  "next_timer (run_cleanup cl s) = next_timer s"
  "promises (run_cleanup cl s) = promises s"
  "console (run_cleanup cl s) = console s"
  by (cases cl; simp add: activeTimeouts_delete_def clearTimeout_def)+

lemma TimeoutController_new_fields [simp]:
  "fst (TimeoutController_new s) = length (promises s)"
  "activeTimeouts (snd (TimeoutController_new s)) = activeTimeouts s"
  "timers (snd (TimeoutController_new s)) = timers s"
  "next_timer (snd (TimeoutController_new s)) = next_timer s"
  "console (snd (TimeoutController_new s)) = console s"
  "promises (snd (TimeoutController_new s)) = promises s @ [Pending]"
  by (simp_all add: TimeoutController_new_def)

lemma inv_TimeoutController_new:
  assumes "registry_ok s"
  shows "registry_ok (snd (TimeoutController_new s))"
proof -
  have "entry_ok (snd (TimeoutController_new s)) k e" if "entry_ok s k e" for k e
    using that by (auto simp: entry_ok_def nth_append split: option.splits)
  moreover have "timer_ok (snd (TimeoutController_new s)) t tm" if "timer_ok s t tm" for t tm
    using that by (auto simp: timer_ok_def split: callback.splits)
  ultimately show ?thesis
    using assms by (auto simp: registry_ok_def list_all_iff)
qed

lemma unused_TimeoutController_new:
  assumes "registry_ok s" and "x \<in> set (timers s)"
  shows "cb_promise (handler (snd x)) \<noteq> length (promises s)"
  using assms by (fastforce simp: registry_ok_def list_all_iff timer_ok_def)

lemma entry_timer:
  assumes "registry_ok s" and "map_of (activeTimeouts s) i = Some e"
  obtains tm where "map_of (timers s) (cleanup_timer (cleanup e)) = Some tm"
    and "cb_promise (handler tm) = controller e" and "cb_ident (handler tm) = i"
    and "cleanup_ident (cleanup e) = i"
    and "controller e < length (promises s)" and "promises s ! controller e = Pending"
  using invD_entry [OF assms] by (auto simp: entry_ok_def split: option.splits)

text \<open>Running the cleanup of a registered entry, after its promise may have been settled.\<close>

lemma inv_entry_cleanup:
  assumes "registry_ok s" and "map_of (activeTimeouts s) i = Some e"
    and "activeTimeouts s1 = activeTimeouts s" and "timers s1 = timers s"
    and "next_timer s1 = next_timer s" and "length (promises s) \<le> length (promises s1)"
    and "\<forall>q<length (promises s). q \<noteq> controller e \<longrightarrow> promises s1 ! q = promises s ! q"
  shows "registry_ok (run_cleanup (cleanup e) s1)"
proof -
  from entry_timer [OF assms(1,2)] obtain tm
    where tm: "map_of (timers s) (cleanup_timer (cleanup e)) = Some tm"
      and "cb_promise (handler tm) = controller e" "cb_ident (handler tm) = i"
      "cleanup_ident (cleanup e) = i"
    by blast
  with assms show ?thesis
    by (intro inv_remove [OF assms(1) tm]) simp_all
qed

lemma inv_waitWithId:
  assumes "registry_ok s"
  shows "registry_ok (snd (waitWithId i d s))"
proof -
  let ?s1 = "snd (TimeoutController_new s)"
  let ?p = "length (promises s)"
  have inv1: "registry_ok ?s1"
    by (rule inv_TimeoutController_new [OF assms])
  have unused: "\<forall>x\<in>set (timers ?s1). cb_promise (handler (snd x)) \<noteq> ?p"
    using unused_TimeoutController_new [OF assms] by simp
  from inv1 _ _ unused show ?thesis
    by (rule inv_install [where p = ?p and i = i and d = d
          and cb = "CompletedCb ?p i (Cleanup (next_timer s) i)"])
       (simp_all add: waitWithId_def Let_def split_def setTimeout_def activeTimeouts_set_def
          TimeoutController_new_def)
qed

lemma inv_cancelWait:
  assumes "registry_ok s"
  shows "registry_ok (snd (cancelWait i reason s))"
proof (cases "map_of (activeTimeouts s) i")
  case None
  with assms show ?thesis
    by (simp add: cancelWait_def activeTimeouts_get_def)
next
  case (Some e)
  have "registry_ok (run_cleanup (cleanup e) (reject (controller e) (TimeoutError_new i reason) s))"
    by (rule inv_entry_cleanup [OF assms Some]) (simp_all add: reject_def settle_other)
  with Some show ?thesis
    by (simp add: cancelWait_def activeTimeouts_get_def)
qed

lemma inv_teardown_entry:
  assumes "registry_ok s" and "map_of (activeTimeouts s) i = Some e"
  shows "registry_ok (teardown_entry i e s)"
  unfolding teardown_entry_def
  by (rule inv_entry_cleanup [OF assms]) (simp_all add: reject_def settle_other)

lemma inv_updateWait:
  assumes "registry_ok s" and "updateWait i d s = Inr (p, s')"
  shows "registry_ok s'"
proof (cases "map_of (activeTimeouts s) i")
  case None
  with assms show ?thesis
    by (simp add: updateWait_def activeTimeouts_get_def)
next
  case (Some e)
  let ?s1 = "snd (TimeoutController_new s)"
  let ?s2 = "run_cleanup (cleanup e) ?s1"
  have inv2: "registry_ok ?s2"
    by (rule inv_entry_cleanup [OF assms(1) Some]) (simp_all add: nth_append)
  have eq: "p = length (promises s)"
    "s' = activeTimeouts_set i \<lparr>controller = p, cleanup = Cleanup (next_timer ?s2) i\<rparr>
            (snd (setTimeout (UpdatedCb p i) d ?s2))"
    using assms(2) Some
    by (auto simp: updateWait_def activeTimeouts_get_def Let_def split_def setTimeout_def)
  have unused: "\<forall>x\<in>set (timers ?s2). cb_promise (handler (snd x)) \<noteq> p"
    using unused_TimeoutController_new [OF assms(1)]
    by (auto simp: eq(1) AList.delete_eq)
  from inv2 _ _ unused show ?thesis
    by (rule inv_install [where i = i and d = d and cb = "UpdatedCb p i"])
       (auto simp: eq setTimeout_def activeTimeouts_set_def)
qed

lemma inv_fire:
  assumes "registry_ok s"
  shows "registry_ok (fire t s)"
proof (cases "map_of (timers s) t")
  case None
  with assms show ?thesis by (simp add: fire_def)
next
  case (Some tm)
  have "registry_ok (run_callback (handler tm) (clearTimeout t s))"
  proof (rule inv_remove [OF assms Some])
    show "activeTimeouts (run_callback (handler tm) (clearTimeout t s)) =
          AList.delete (cb_ident (handler tm)) (activeTimeouts s)"
      by (cases "handler tm")
         (simp_all add: clearTimeout_def resolve_def activeTimeouts_delete_def)
    show "timers (run_callback (handler tm) (clearTimeout t s)) = AList.delete t (timers s)"
      using invD_timer [OF assms Some]
      by (cases "handler tm")
         (simp_all add: clearTimeout_def resolve_def activeTimeouts_delete_def timer_ok_def
            AList.delete_idem)
    show "next_timer (run_callback (handler tm) (clearTimeout t s)) = next_timer s"
      by (cases "handler tm")
         (simp_all add: clearTimeout_def resolve_def activeTimeouts_delete_def)
    show "length (promises s) \<le> length (promises (run_callback (handler tm) (clearTimeout t s)))"
      by (cases "handler tm")
         (simp_all add: clearTimeout_def resolve_def activeTimeouts_delete_def)
    show "\<forall>q<length (promises s). q \<noteq> cb_promise (handler tm) \<longrightarrow>
            promises (run_callback (handler tm) (clearTimeout t s)) ! q = promises s ! q"
      by (cases "handler tm")
         (simp_all add: clearTimeout_def resolve_def activeTimeouts_delete_def settle_other)
  qed
  with Some show ?thesis by (simp add: fire_def)
qed

lemma console_error_fields [simp]:
  "activeTimeouts (console_error x s) = activeTimeouts s"
  "timers (console_error x s) = timers s"
  "next_timer (console_error x s) = next_timer s"
  "promises (console_error x s) = promises s"
  "console (console_error x s) = console s @ [x]"
  by (simp_all add: console_error_def)

lemma try_teardown_None: "try_teardown None i e s = teardown_entry i e s"
  by (simp add: try_teardown_def)

lemma inv_exit_loop: "registry_ok s \<Longrightarrow> registry_ok (exit_loop (\<lambda>i. None) ids s)"
proof (induction ids arbitrary: s)
  case Nil
  then show ?case by simp
next
  case (Cons i ids)
  then show ?case
    by (cases "map_of (activeTimeouts s) i")
       (simp_all add: activeTimeouts_get_def try_teardown_None inv_teardown_entry)
qed

lemma inv_exec: "registry_ok s \<Longrightarrow> registry_ok (exec x s)"
  by (cases x)
     (auto simp: inv_waitWithId inv_cancelWait inv_fire inv_exit_loop on_exit_def on_exit_raising_def
        split: sum.splits dest: inv_updateWait)

lemma inv_run: "registry_ok s \<Longrightarrow> registry_ok (run ops s)"
  by (induction ops arbitrary: s) (simp_all add: inv_exec)

lemma inv_init_state: "registry_ok init_state"
  by (simp add: registry_ok_def init_state_def)

lemma inv_reachable: "registry_ok (run ops init_state)"
  by (simp add: inv_run inv_init_state)

subsection \<open>Which keys an operation can add\<close>

lemma try_teardown_fields:
  "fst ` set (activeTimeouts (try_teardown flt i e s)) \<subseteq> fst ` set (activeTimeouts s)"
  "set (activeTimeouts (try_teardown flt i e s)) \<subseteq> set (activeTimeouts s)"
  "set (timers (try_teardown flt i e s)) \<subseteq> set (timers s)"
  "length (promises (try_teardown flt i e s)) = length (promises s)"
  "console (try_teardown flt i e s) =
     console s @ (case flt of None \<Rightarrow> [] | Some f \<Rightarrow> [thrown f])"
proof -
  have del: "set (AList.delete k al) \<subseteq> set al" for k and al :: "('k \<times> 'v) list"
    by (auto simp: AList.delete_eq)
  show "fst ` set (activeTimeouts (try_teardown flt i e s)) \<subseteq> fst ` set (activeTimeouts s)"
    "set (activeTimeouts (try_teardown flt i e s)) \<subseteq> set (activeTimeouts s)"
    "set (timers (try_teardown flt i e s)) \<subseteq> set (timers s)"
    "length (promises (try_teardown flt i e s)) = length (promises s)"
    "console (try_teardown flt i e s) =
       console s @ (case flt of None \<Rightarrow> [] | Some f \<Rightarrow> [thrown f])"
    by (simp_all add: try_teardown_def teardown_entry_def reject_def dom_delete_subset del
          split: option.split fault.split)
qed

lemma try_teardown_other:
  assumes "p \<noteq> controller e"
  shows "promises (try_teardown flt i e s) ! p = promises s ! p"
  using assms
  by (simp add: try_teardown_def teardown_entry_def reject_def settle_other
        split: option.split fault.split)

lemma try_teardown_settled:
  assumes "promises s ! p \<noteq> Pending"
  shows "promises (try_teardown flt i e s) ! p = promises s ! p"
proof (cases "p = controller e")
  case True
  with assms show ?thesis
    by (simp add: try_teardown_def teardown_entry_def reject_def settle_settled
          split: option.split fault.split)
next
  case False
  then show ?thesis by (rule try_teardown_other)
qed

lemma keys_exit_loop:
  "fst ` set (activeTimeouts (exit_loop raised ids s)) \<subseteq> fst ` set (activeTimeouts s)"
proof (induction ids arbitrary: s)
  case Nil
  show ?case by simp
next
  case (Cons i ids)
  show ?case
  proof (cases "activeTimeouts_get i s")
    case None
    with Cons show ?thesis by simp
  next
    case (Some e)
    from Cons [of "try_teardown (raised i) i e s"] try_teardown_fields(1) [of "raised i" i e s]
    show ?thesis
      by (simp add: Some)
  qed
qed

lemma keys_cancelWait:
  "fst ` set (activeTimeouts (snd (cancelWait i reason s))) \<subseteq> fst ` set (activeTimeouts s)"
  by (cases "map_of (activeTimeouts s) i")
     (simp_all add: cancelWait_def activeTimeouts_get_def reject_def dom_delete_subset)

lemma keys_fire: "fst ` set (activeTimeouts (fire t s)) \<subseteq> fst ` set (activeTimeouts s)"
proof (cases "map_of (timers s) t")
  case None
  then show ?thesis by (simp add: fire_def)
next
  case (Some tm)
  then show ?thesis
    by (cases "handler tm")
       (simp_all add: fire_def resolve_def clearTimeout_def activeTimeouts_delete_def
          dom_delete_subset)
qed

lemma updateWait_live:
  assumes "map_of (activeTimeouts s) i = Some e"
  shows "\<exists>s'. updateWait i d s = Inr (length (promises s), s') \<and>
    activeTimeouts s' =
      AList.update i \<lparr>controller = length (promises s), cleanup = Cleanup (next_timer s) i\<rparr>
        (AList.delete (cleanup_ident (cleanup e)) (activeTimeouts s)) \<and>
    timers s' = AList.delete (cleanup_timer (cleanup e)) (timers s) @
      [(next_timer s, \<lparr>ms = d, handler = UpdatedCb (length (promises s)) i\<rparr>)] \<and>
    promises s' = promises s @ [Pending] \<and>
    next_timer s' = Suc (next_timer s) \<and>
    console s' = console s"
  using assms
  by (simp add: updateWait_def activeTimeouts_get_def Let_def split_def setTimeout_def
        activeTimeouts_set_def)

lemma updateWait_Inr:
  assumes "updateWait i d s = Inr (p, s')"
  obtains e where "map_of (activeTimeouts s) i = Some e"
  using assms by (auto simp: updateWait_def activeTimeouts_get_def split: option.splits)

lemma waitWithId_fields:
  "fst (waitWithId i d s) = (i, length (promises s))"
  "activeTimeouts (snd (waitWithId i d s)) =
     AList.update i \<lparr>controller = length (promises s), cleanup = Cleanup (next_timer s) i\<rparr>
       (activeTimeouts s)"
  "timers (snd (waitWithId i d s)) = timers s @
     [(next_timer s,
       \<lparr>ms = d, handler = CompletedCb (length (promises s)) i (Cleanup (next_timer s) i)\<rparr>)]"
  "promises (snd (waitWithId i d s)) = promises s @ [Pending]"
  "next_timer (snd (waitWithId i d s)) = Suc (next_timer s)"
  "console (snd (waitWithId i d s)) = console s"
  by (simp_all add: waitWithId_def Let_def split_def setTimeout_def activeTimeouts_set_def
        TimeoutController_new_def)

lemma keys_updateWait:
  assumes "updateWait i d s = Inr (p, s')"
  shows "fst ` set (activeTimeouts s') \<subseteq> fst ` set (activeTimeouts s)"
proof -
  from assms obtain e where e: "map_of (activeTimeouts s) i = Some e"
    by (rule updateWait_Inr)
  then have "i \<in> fst ` set (activeTimeouts s)"
    by (metis domI dom_map_of_conv_image_fst)
  moreover from updateWait_live [OF e, of d] assms
  have "fst ` set (activeTimeouts s') =
      insert i (fst ` set (AList.delete (cleanup_ident (cleanup e)) (activeTimeouts s)))"
    by (auto simp: dom_update)
  ultimately show ?thesis
    using dom_delete_subset [of "cleanup_ident (cleanup e)" "activeTimeouts s"] by auto
qed

lemma keys_waitWithId:
  "fst ` set (activeTimeouts (snd (waitWithId j d s))) = insert j (fst ` set (activeTimeouts s))"
  by (simp add: waitWithId_def Let_def split_def setTimeout_def activeTimeouts_set_def
        dom_update TimeoutController_new_def)

lemma absent_exec:
  assumes "i \<notin> fst ` set (activeTimeouts s)" and "\<forall>d. x \<noteq> Create i d"
  shows "i \<notin> fst ` set (activeTimeouts (exec x s))"
proof (cases "\<exists>j d. x = Create j d")
  case True
  then obtain j d where x: "x = Create j d"
    by blast
  with assms(2) have "j \<noteq> i"
    by blast
  with assms(1) show ?thesis
    by (simp add: x keys_waitWithId)
next
  case False
  have "fst ` set (activeTimeouts (exec x s)) \<subseteq> fst ` set (activeTimeouts s)"
  proof (cases x)
    case (Create j d)
    with False show ?thesis by simp
  next
    case (Cancel j reason)
    then show ?thesis by (simp add: keys_cancelWait)
  next
    case (Update j d)
    show ?thesis
    proof (cases "updateWait j d s")
      case (Inl err)
      then show ?thesis by (simp add: Update)
    next
      case (Inr res)
      then have "updateWait j d s = Inr (fst res, snd res)"
        by simp
      from keys_updateWait [OF this] Inr show ?thesis
        by (simp add: Update split_def)
    qed
  next
    case (Fire t)
    then show ?thesis by (simp add: keys_fire)
  next
    case Exit
    then show ?thesis by (simp add: on_exit_def on_exit_raising_def keys_exit_loop)
  qed
  with assms(1) show ?thesis
    by blast
qed

lemma absent_run:
  assumes "i \<notin> fst ` set (activeTimeouts s)" and "\<forall>d. Create i d \<notin> set ops"
  shows "i \<notin> fst ` set (activeTimeouts (run ops s))"
  using assms
proof (induction ops arbitrary: s)
  case Nil
  then show ?case by simp
next
  case (Cons x ops)
  from Cons.prems have "i \<notin> fst ` set (activeTimeouts (exec x s))"
    by (intro absent_exec) auto
  with Cons show ?case by simp
qed

lemma not_found:
  assumes "i \<notin> fst ` set (activeTimeouts s)"
  shows "cancelWait i reason s = (False, s)"
    and "updateWait i d s = Inl (TimeoutError_new i (Some ''Timeout not found''))"
proof -
  from assms have "map_of (activeTimeouts s) i = None"
    by (simp add: map_of_eq_None_iff)
  then show "cancelWait i reason s = (False, s)"
    and "updateWait i d s = Inl (TimeoutError_new i (Some ''Timeout not found''))"
    by (simp_all only: cancelWait_def updateWait_def activeTimeouts_get_def option.case)
qed

lemma cancelWait_live:
  assumes "map_of (activeTimeouts s) i = Some e"
  shows "cancelWait i reason s =
    (True, run_cleanup (cleanup e) (reject (controller e) (TimeoutError_new i reason) s))"
  using assms by (simp add: cancelWait_def activeTimeouts_get_def)

lemma cancelWait_removes:
  assumes "registry_ok s"
  shows "i \<notin> fst ` set (activeTimeouts (snd (cancelWait i reason s)))"
proof (cases "map_of (activeTimeouts s) i")
  case None
  then have "i \<notin> fst ` set (activeTimeouts s)"
    by (simp add: map_of_eq_None_iff)
  with not_found(1) [OF this] show ?thesis by simp
next
  case (Some e)
  from invD_entry [OF assms Some] have "cleanup_ident (cleanup e) = i"
    by (simp add: entry_ok_def)
  then show ?thesis
    by (simp add: cancelWait_live [OF Some] reject_def delete_notin_dom)
qed

lemma fire_live:
  assumes "map_of (timers s) t = Some tm"
  shows "activeTimeouts (fire t s) = AList.delete (cb_ident (handler tm)) (activeTimeouts s)"
    and "promises (fire t s) = promises (settle (cb_promise (handler tm))
           (Resolved ((case handler tm of CompletedCb p i cl \<Rightarrow> ''Completed timeout ID: ''
                       | UpdatedCb p i \<Rightarrow> ''Updated timeout ID: '') @
                      (case handler tm of CompletedCb p i cl \<Rightarrow> i | UpdatedCb p i \<Rightarrow> i))) s)"
  using assms
  by (cases "handler tm"; simp add: fire_def clearTimeout_def resolve_def settle_def
        activeTimeouts_delete_def)+

lemma fire_removes:
  assumes "registry_ok s" and "map_of (activeTimeouts s) i = Some e"
  shows "i \<notin> fst ` set (activeTimeouts (fire (cleanup_timer (cleanup e)) s))"
proof -
  from entry_timer [OF assms] obtain tm
    where "map_of (timers s) (cleanup_timer (cleanup e)) = Some tm" "cb_ident (handler tm) = i"
    by blast
  then show ?thesis
    by (simp add: fire_live(1) delete_notin_dom)
qed

lemmas registry_eval =
  init_state_def waitWithId_def cancelWait_def updateWait_def fire_def on_exit_def
  on_exit_raising_def try_teardown_def teardown_entry_def console_error_def
  TimeoutController_new_def
  setTimeout_def clearTimeout_def settle_def resolve_def reject_def activeTimeouts_get_def
  activeTimeouts_set_def activeTimeouts_delete_def TimeoutError_new_def Let_def

subsection \<open>The claims about the registry\<close>

text \<open>
  Claim C6. For an identifier with no entry in the map, \<^verbatim>\<open>cancelWait\<close> returns
  \<^verbatim>\<open>false\<close> and leaves the state as it was (it has no way to throw), and
  \<^verbatim>\<open>updateWait\<close> throws a \<^verbatim>\<open>TimeoutError\<close> for that identifier whose message is
  \<^verbatim>\<open>'Timeout not found'\<close>.
\<close>

theorem unknown_identifier:
  assumes "map_of (activeTimeouts s) i = None"
  shows "cancelWait i reason s = (False, s) \<and>
         updateWait i newMs s = Inl (TimeoutError_new i (Some ''Timeout not found'')) \<and>
         name (TimeoutError_new i (Some ''Timeout not found'')) = ''TimeoutError'' \<and>
         message (TimeoutError_new i (Some ''Timeout not found'')) = ''Timeout not found'' \<and>
         ident (TimeoutError_new i (Some ''Timeout not found'')) = i"
  using assms
  by (simp add: cancelWait_def updateWait_def activeTimeouts_get_def TimeoutError_new_def)

theorem unknown_identifier_witness:
  "map_of (activeTimeouts (run [Create ''a'' 100] init_state)) ''fake-id'' = None \<and>
   cancelWait ''fake-id'' None (run [Create ''a'' 100] init_state) =
     (False, run [Create ''a'' 100] init_state) \<and>
   updateWait ''invalid-id'' 100 init_state =
     Inl \<lparr>name = ''TimeoutError'', message = ''Timeout not found'', code = ''ETIMEOUT'',
          ident = ''invalid-id''\<rparr>"
  using unknown_identifier [of "run [Create ''a'' 100] init_state" "''fake-id''" None]
    unknown_identifier [of init_state "''invalid-id''" None 100]
  by (simp add: registry_eval)

text \<open>
  Claim C5, as amended. In a reachable state, \<^verbatim>\<open>cancelWait\<close> on an identifier with an
  entry returns \<^verbatim>\<open>true\<close> and rejects the promise of the entry with a
  \<^verbatim>\<open>TimeoutError\<close>; its message is the reason when a non-empty reason is given, and
  \<^verbatim>\<open>Timeout {id} cancelled\<close> when no reason or the empty string is given. After that,
  whatever else happens to the registry, every \<^verbatim>\<open>cancelWait\<close> on the identifier returns
  \<^verbatim>\<open>false\<close>, as long as \<^verbatim>\<open>randomUUID\<close> does not draw the same identifier again.
\<close>

theorem cancel_live_identifier:
  assumes "map_of (activeTimeouts (run ops init_state)) i = Some e"
    and "\<forall>d. Create i d \<notin> set ops'"
  shows "\<exists>s'. cancelWait i reason (run ops init_state) = (True, s') \<and>
           promises s' ! controller e = Rejected (TimeoutError_new i reason) \<and>
           name (TimeoutError_new i reason) = ''TimeoutError'' \<and>
           message (TimeoutError_new i reason) =
             (case reason of
                None \<Rightarrow> ''Timeout '' @ i @ '' cancelled''
              | Some r \<Rightarrow> if r = [] then ''Timeout '' @ i @ '' cancelled'' else r) \<and>
           fst (cancelWait i reason' (run ops' s')) = False"
proof -
  let ?s = "run ops init_state"
  let ?s' = "run_cleanup (cleanup e) (reject (controller e) (TimeoutError_new i reason) ?s)"
  have inv: "registry_ok ?s" by (rule inv_reachable)
  have 1: "cancelWait i reason ?s = (True, ?s')"
    by (rule cancelWait_live [OF assms(1)])
  from entry_timer [OF inv assms(1)]
  have "controller e < length (promises ?s)" "promises ?s ! controller e = Pending"
    by blast+
  then have 2: "promises ?s' ! controller e = Rejected (TimeoutError_new i reason)"
    by (simp add: reject_def settle_pending)
  have "i \<notin> fst ` set (activeTimeouts ?s')"
    using cancelWait_removes [OF inv, of i reason] by (simp add: 1)
  then have "i \<notin> fst ` set (activeTimeouts (run ops' ?s'))"
    using assms(2) by (rule absent_run)
  then have 3: "fst (cancelWait i reason' (run ops' ?s')) = False"
    by (simp add: not_found(1))
  from 1 2 3 show ?thesis
    by (simp add: TimeoutError_new_def)
qed

theorem cancel_live_identifier_witness:
  "map_of (activeTimeouts (run [Create ''a'' 500] init_state)) ''a'' =
     Some \<lparr>controller = 0, cleanup = Cleanup 0 ''a''\<rparr> \<and>
   (\<forall>d. Create ''a'' d \<notin> set [Create ''b'' 100, Fire 1]) \<and>
   (\<exists>s'. cancelWait ''a'' (Some ''Test cancellation'') (run [Create ''a'' 500] init_state) =
           (True, s') \<and>
         promises s' ! 0 =
           Rejected \<lparr>name = ''TimeoutError'', message = ''Test cancellation'',
                      code = ''ETIMEOUT'', ident = ''a''\<rparr> \<and>
         fst (cancelWait ''a'' None (run [Create ''b'' 100, Fire 1] s')) = False)"
  using cancel_live_identifier [of "[Create ''a'' 500]" "''a''"
          "\<lparr>controller = 0, cleanup = Cleanup 0 ''a''\<rparr>" "[Create ''b'' 100, Fire 1]"
          "Some ''Test cancellation''" None]
  by (simp add: registry_eval)

text \<open>
  The claim as the specification words it fails for the reason \<^verbatim>\<open>''\<close>: the reason is
  supplied, and the message is the default one, since \<^verbatim>\<open>||\<close> takes the empty string
  for absent.
\<close>

theorem cancel_empty_reason_counterexample:
  "fst (cancelWait ''a'' (Some []) (run [Create ''a'' 200] init_state)) = True \<and>
   promises (snd (cancelWait ''a'' (Some []) (run [Create ''a'' 200] init_state))) ! 0 =
     Rejected (TimeoutError_new ''a'' (Some [])) \<and>
   message (TimeoutError_new ''a'' (Some [])) = ''Timeout a cancelled'' \<and>
   message (TimeoutError_new ''a'' (Some [])) \<noteq> []"
  by (simp add: registry_eval)

lemma set_AList_delete: "set (AList.delete k al) \<subseteq> set al"
  by (auto simp: AList.delete_eq)

lemma unreferenced_subset:
  assumes "unreferenced p s" and "set (activeTimeouts s') \<subseteq> set (activeTimeouts s)"
    and "set (timers s') \<subseteq> set (timers s)"
  shows "unreferenced p s'"
  using assms by (auto simp: unreferenced_def list_all_iff)

lemma unreferenced_entry:
  assumes "unreferenced p s" and "map_of (activeTimeouts s) i = Some e"
  shows "controller e \<noteq> p"
  using assms by (auto simp: unreferenced_def list_all_iff dest!: map_of_SomeD)

lemma unreferenced_timer:
  assumes "unreferenced p s" and "map_of (timers s) t = Some tm"
  shows "cb_promise (handler tm) \<noteq> p"
  using assms by (auto simp: unreferenced_def list_all_iff dest!: map_of_SomeD)

lemma unreferenced_exit_loop:
  assumes "unreferenced p s"
  shows "unreferenced p (exit_loop raised ids s) \<and>
         promises (exit_loop raised ids s) ! p = promises s ! p \<and>
         length (promises (exit_loop raised ids s)) = length (promises s)"
  using assms
proof (induction ids arbitrary: s)
  case Nil
  then show ?case by simp
next
  case (Cons i ids)
  show ?case
  proof (cases "activeTimeouts_get i s")
    case None
    with Cons show ?thesis by simp
  next
    case (Some e)
    then have e: "map_of (activeTimeouts s) i = Some e"
      by (simp add: activeTimeouts_get_def)
    let ?s1 = "try_teardown (raised i) i e s"
    have "unreferenced p ?s1"
      by (rule unreferenced_subset [OF Cons.prems]) (rule try_teardown_fields)+
    from Cons.IH [OF this] unreferenced_entry [OF Cons.prems e] show ?thesis
      by (simp add: Some try_teardown_other try_teardown_fields(4))
  qed
qed

lemma unreferenced_install:
  assumes "unreferenced p s" and "q \<noteq> p"
    and "set (activeTimeouts s') \<subseteq> insert (i, e) (set (activeTimeouts s))"
    and "controller e = q"
    and "set (timers s') \<subseteq> insert (t, tm) (set (timers s))"
    and "cb_promise (handler tm) = q"
  shows "unreferenced p s'"
  unfolding unreferenced_def list_all_iff
proof (intro conjI ballI)
  fix x assume "x \<in> set (activeTimeouts s')"
  with assms(3) have "x = (i, e) \<or> x \<in> set (activeTimeouts s)"
    by blast
  with assms(1,2,4) show "controller (snd x) \<noteq> p"
    by (auto simp: unreferenced_def list_all_iff)
next
  fix x assume "x \<in> set (timers s')"
  with assms(5) have "x = (t, tm) \<or> x \<in> set (timers s)"
    by blast
  with assms(1,2,6) show "cb_promise (handler (snd x)) \<noteq> p"
    by (auto simp: unreferenced_def list_all_iff)
qed

lemma unreferenced_exec:
  assumes "unreferenced p s" and "p < length (promises s)"
  shows "unreferenced p (exec x s) \<and> p < length (promises (exec x s)) \<and>
         promises (exec x s) ! p = promises s ! p"
proof (cases x)
  case (Create j d)
  from assms(2) have ne: "length (promises s) \<noteq> p"
    by simp
  have "unreferenced p (snd (waitWithId j d s))"
    by (rule unreferenced_install [OF assms(1) ne,
          where i = j and t = "next_timer s"
            and e = "\<lparr>controller = length (promises s), cleanup = Cleanup (next_timer s) j\<rparr>"
            and tm = "\<lparr>ms = d,
              handler = CompletedCb (length (promises s)) j (Cleanup (next_timer s) j)\<rparr>"])
       (simp_all add: waitWithId_fields set_AList_update_subset subset_insertI)
  with assms(2) show ?thesis
    by (simp add: Create waitWithId_fields nth_append)
next
  case (Cancel j reason)
  show ?thesis
  proof (cases "map_of (activeTimeouts s) j")
    case None
    with assms show ?thesis
      by (simp add: Cancel cancelWait_def activeTimeouts_get_def)
  next
    case (Some e)
    have "unreferenced p (exec x s)"
      by (rule unreferenced_subset [OF assms(1)])
         (simp_all add: Cancel cancelWait_live [OF Some] reject_def set_AList_delete)
    then show ?thesis
      using assms unreferenced_entry [OF assms(1) Some]
      by (simp add: Cancel cancelWait_live [OF Some] reject_def settle_other)
  qed
next
  case (Update j d)
  show ?thesis
  proof (cases "map_of (activeTimeouts s) j")
    case None
    with assms show ?thesis
      by (simp add: Update updateWait_def activeTimeouts_get_def)
  next
    case (Some e)
    let ?new = "\<lparr>controller = length (promises s), cleanup = Cleanup (next_timer s) j\<rparr>"
    let ?tm = "\<lparr>ms = d, handler = UpdatedCb (length (promises s)) j\<rparr>"
    from updateWait_live [OF Some, of d] obtain s'
      where upd: "updateWait j d s = Inr (length (promises s), s')"
        and reg: "activeTimeouts s' =
          AList.update j ?new (AList.delete (cleanup_ident (cleanup e)) (activeTimeouts s))"
        and tms: "timers s' = AList.delete (cleanup_timer (cleanup e)) (timers s) @
          [(next_timer s, ?tm)]"
        and ps: "promises s' = promises s @ [Pending]"
      by blast
    from assms(2) have ne: "length (promises s) \<noteq> p"
      by simp
    have "set (activeTimeouts s') \<subseteq> insert (j, ?new) (set (activeTimeouts s))"
      unfolding reg
      using set_AList_update_subset [of j ?new "AList.delete (cleanup_ident (cleanup e)) (activeTimeouts s)"]
        set_AList_delete [of "cleanup_ident (cleanup e)" "activeTimeouts s"]
      by blast
    moreover have "set (timers s') \<subseteq> insert (next_timer s, ?tm) (set (timers s))"
      unfolding tms
      using set_AList_delete [of "cleanup_timer (cleanup e)" "timers s"]
      by auto
    ultimately have "unreferenced p s'"
      by (intro unreferenced_install [OF assms(1) ne, where e = ?new and tm = ?tm]) simp_all
    with assms(2) show ?thesis
      by (simp add: Update upd ps nth_append)
  qed
next
  case (Fire t)
  show ?thesis
  proof (cases "map_of (timers s) t")
    case None
    with assms show ?thesis by (simp add: Fire fire_def)
  next
    case (Some tm)
    have "unreferenced p (exec x s)"
      by (rule unreferenced_subset [OF assms(1)])
         (cases "handler tm";
          simp add: Fire fire_def Some clearTimeout_def resolve_def activeTimeouts_delete_def
            set_AList_delete order_trans [OF set_AList_delete set_AList_delete])+
    then show ?thesis
      using assms unreferenced_timer [OF assms(1) Some]
      by (simp add: Fire fire_live(2) [OF Some] settle_other)
  qed
next
  case Exit
  with assms unreferenced_exit_loop [OF assms(1)] show ?thesis
    by (simp add: on_exit_def on_exit_raising_def)
qed

lemma unreferenced_run:
  assumes "unreferenced p s" and "p < length (promises s)"
  shows "promises (run ops s) ! p = promises s ! p"
  using assms
proof (induction ops arbitrary: s)
  case Nil
  show ?case by simp
next
  case (Cons x ops)
  from unreferenced_exec [OF Cons.prems, of x] Cons.IH [of "exec x s"]
  show ?case by simp
qed

lemma inv_same_controller:
  assumes "registry_ok s" and "map_of (activeTimeouts s) k = Some e" and "map_of (activeTimeouts s) k' = Some e'"
    and "controller e = controller e'"
  shows "k = k'"
proof -
  from entry_timer [OF assms(1,2)] obtain tm
    where tm: "map_of (timers s) (cleanup_timer (cleanup e)) = Some tm"
      "cb_promise (handler tm) = controller e" "cb_ident (handler tm) = k"
    by blast
  from entry_timer [OF assms(1,3)] obtain tm'
    where tm': "map_of (timers s) (cleanup_timer (cleanup e')) = Some tm'"
      "cb_promise (handler tm') = controller e'" "cb_ident (handler tm') = k'"
    by blast
  from inv_same_promise [OF assms(1) tm(1) tm'(1)] tm tm' assms(4) show ?thesis
    by auto
qed

text \<open>
  Claim C4. In a reachable state, \<^verbatim>\<open>updateWait\<close> on an identifier with an entry returns
  a new promise \<open>p\<close>, pending and different from the old one. The timer of the old entry
  is no longer scheduled. The old promise was pending, is pending after the update, and
  stays pending whatever happens to the registry afterwards: nothing settles it. The map
  holds, under the same identifier, a new entry with the promise \<open>p\<close> and a new timer
  \<open>t\<close>, scheduled for the new duration. A \<^verbatim>\<open>cancelWait\<close> after the update returns
  \<^verbatim>\<open>true\<close>, rejects \<open>p\<close> and leaves the old promise pending.
\<close>

theorem update_live_identifier:
  assumes "map_of (activeTimeouts (run ops init_state)) i = Some e"
  shows "\<exists>p s1 t.
    updateWait i newMs (run ops init_state) = Inr (p, s1) \<and>
    cleanup_timer (cleanup e) \<notin> fst ` set (timers s1) \<and>
    promises (run ops init_state) ! controller e = Pending \<and>
    promises s1 ! controller e = Pending \<and>
    (\<forall>ops'. promises (run ops' s1) ! controller e = Pending) \<and>
    p \<noteq> controller e \<and>
    promises s1 ! p = Pending \<and>
    map_of (activeTimeouts s1) i = Some \<lparr>controller = p, cleanup = Cleanup t i\<rparr> \<and>
    map_of (timers s1) t = Some \<lparr>ms = newMs, handler = UpdatedCb p i\<rparr> \<and>
    fst (cancelWait i reason s1) = True \<and>
    promises (snd (cancelWait i reason s1)) ! p = Rejected (TimeoutError_new i reason) \<and>
    promises (snd (cancelWait i reason s1)) ! controller e = Pending"
proof -
  let ?s = "run ops init_state"
  let ?p = "length (promises ?s)"
  let ?t = "next_timer ?s"
  let ?new = "\<lparr>controller = ?p, cleanup = Cleanup ?t i\<rparr>"
  have inv: "registry_ok ?s" by (rule inv_reachable)
  from entry_timer [OF inv assms] obtain tm
    where tm: "map_of (timers ?s) (cleanup_timer (cleanup e)) = Some tm"
      and tmp: "cb_promise (handler tm) = controller e"
      and cid: "cleanup_ident (cleanup e) = i"
      and lt: "controller e < ?p" and pending: "promises ?s ! controller e = Pending"
    by blast
  from updateWait_live [OF assms, of newMs] obtain s1
    where upd: "updateWait i newMs ?s = Inr (?p, s1)"
      and reg: "activeTimeouts s1 = AList.update i ?new (AList.delete i (activeTimeouts ?s))"
      and tms: "timers s1 = AList.delete (cleanup_timer (cleanup e)) (timers ?s) @
                  [(?t, \<lparr>ms = newMs, handler = UpdatedCb ?p i\<rparr>)]"
      and ps: "promises s1 = promises ?s @ [Pending]"
    unfolding cid by blast
  have inv1: "registry_ok s1"
    by (rule inv_updateWait [OF inv upd])
  have old_lt: "cleanup_timer (cleanup e) < ?t"
    using invD_timer [OF inv tm] by (simp add: timer_ok_def)
  have 1: "cleanup_timer (cleanup e) \<notin> fst ` set (timers s1)"
    using old_lt by (auto simp: tms AList.delete_eq)
  have 2: "promises s1 ! controller e = Pending"
    using lt pending by (simp add: ps nth_append)
  have unref: "unreferenced (controller e) s1"
    unfolding unreferenced_def list_all_iff
  proof (intro conjI ballI)
    fix x assume "x \<in> set (activeTimeouts s1)"
    then have "x \<in> set (AList.update i ?new (AList.delete i (activeTimeouts ?s)))"
      by (simp only: reg)
    then have "x = (i, ?new) \<or> x \<in> set (AList.delete i (activeTimeouts ?s))"
      by (rule set_AList_update')
    moreover have "x \<in> set (activeTimeouts ?s) \<and> fst x \<noteq> i"
      if "x \<in> set (AList.delete i (activeTimeouts ?s))"
      using that by (auto simp: AList.delete_eq)
    ultimately consider "x = (i, ?new)" | "x \<in> set (activeTimeouts ?s)" "fst x \<noteq> i"
      by blast
    then show "controller (snd x) \<noteq> controller e"
    proof cases
      case 1
      with lt show ?thesis by simp
    next
      case 2
      from inv 2(1) have "map_of (activeTimeouts ?s) (fst x) = Some (snd x)"
        by (simp add: registry_ok_def)
      from inv_same_controller [OF inv this assms] 2(2) show ?thesis by auto
    qed
  next
    fix x assume "x \<in> set (timers s1)"
    then have "x = (?t, \<lparr>ms = newMs, handler = UpdatedCb ?p i\<rparr>) \<or>
        x \<in> set (AList.delete (cleanup_timer (cleanup e)) (timers ?s))"
      by (simp add: tms)
    moreover have "x \<in> set (timers ?s) \<and> fst x \<noteq> cleanup_timer (cleanup e)"
      if "x \<in> set (AList.delete (cleanup_timer (cleanup e)) (timers ?s))"
      using that by (auto simp: AList.delete_eq)
    ultimately consider "x = (?t, \<lparr>ms = newMs, handler = UpdatedCb ?p i\<rparr>)"
      | "x \<in> set (timers ?s)" "fst x \<noteq> cleanup_timer (cleanup e)"
      by blast
    then show "cb_promise (handler (snd x)) \<noteq> controller e"
    proof cases
      case 1
      with lt show ?thesis by simp
    next
      case 2
      from inv 2(1) have "map_of (timers ?s) (fst x) = Some (snd x)"
        by (simp add: registry_ok_def)
      from inv_same_promise [OF inv this tm] tmp 2(2) show ?thesis by auto
    qed
  qed
  have lt1: "controller e < length (promises s1)"
    using lt by (simp add: ps)
  have 3: "promises (run ops' s1) ! controller e = Pending" for ops'
    using unreferenced_run [OF unref lt1, of ops'] 2 by simp
  have fresh: "map_of (timers ?s) ?t = None"
    using inv by (fastforce simp: registry_ok_def list_all_iff timer_ok_def map_of_eq_None_iff)
  have 4: "map_of (activeTimeouts s1) i = Some ?new"
    by (simp add: reg update_conv')
  have 5: "map_of (timers s1) ?t = Some \<lparr>ms = newMs, handler = UpdatedCb ?p i\<rparr>"
    using fresh by (simp add: tms map_add_def delete_conv')
  have 6: "cancelWait i reason s1 =
      (True, run_cleanup (Cleanup ?t i) (reject ?p (TimeoutError_new i reason) s1))"
    using cancelWait_live [OF 4] by simp
  have 7: "promises (snd (cancelWait i reason s1)) ! ?p = Rejected (TimeoutError_new i reason)"
    by (simp add: 6 reject_def settle_pending ps activeTimeouts_delete_def clearTimeout_def)
  have 8: "promises (snd (cancelWait i reason s1)) ! controller e = Pending"
    using 3 [of "[Cancel i reason]"] by simp
  have 9: "promises s1 ! ?p = Pending"
    by (simp add: ps)
  show ?thesis
    by (rule exI [where x = ?p], rule exI [where x = s1], rule exI [where x = ?t])
       (use upd 1 pending 2 3 lt 4 5 6 7 8 9 in simp)
qed

theorem update_live_identifier_witness:
  "map_of (activeTimeouts (run [Create ''a'' 500] init_state)) ''a'' =
     Some \<lparr>controller = 0, cleanup = Cleanup 0 ''a''\<rparr> \<and>
   (\<exists>s1. updateWait ''a'' 1000 (run [Create ''a'' 500] init_state) = Inr (1, s1) \<and>
      0 \<notin> fst ` set (timers s1) \<and>
      promises s1 ! 0 = Pending \<and>
      (\<forall>ops'. promises (run ops' s1) ! 0 = Pending) \<and>
      map_of (activeTimeouts s1) ''a'' = Some \<lparr>controller = 1, cleanup = Cleanup 1 ''a''\<rparr> \<and>
      map_of (timers s1) 1 = Some \<lparr>ms = 1000, handler = UpdatedCb 1 ''a''\<rparr> \<and>
      fst (cancelWait ''a'' (Some ''Late cancel'') s1) = True \<and>
      promises (snd (cancelWait ''a'' (Some ''Late cancel'') s1)) ! 1 =
        Rejected \<lparr>name = ''TimeoutError'', message = ''Late cancel'', code = ''ETIMEOUT'',
                   ident = ''a''\<rparr> \<and>
      promises (snd (cancelWait ''a'' (Some ''Late cancel'') s1)) ! 0 = Pending)"
  using update_live_identifier [of "[Create ''a'' 500]" "''a''"
          "\<lparr>controller = 0, cleanup = Cleanup 0 ''a''\<rparr>" 1000 "Some ''Late cancel''"]
  by (simp add: registry_eval)

text \<open>
  Claim C3, as amended. After every sequence of operations the map has at most one entry
  per identifier. Once the entry of an identifier is removed by cancellation or by its
  timer firing, the identifier has no entry, and from then on, whatever else happens to the
  registry, \<^verbatim>\<open>cancelWait\<close> on it returns \<^verbatim>\<open>false\<close> (changing nothing) and
  \<^verbatim>\<open>updateWait\<close> on it throws the \<^verbatim>\<open>TimeoutError\<close> \<^verbatim>\<open>'Timeout not found'\<close>, as
  long as \<^verbatim>\<open>randomUUID\<close> does not draw the same identifier again. An update does not
  take the identifier out of the map: it puts a new entry under it, and a later
  \<^verbatim>\<open>cancelWait\<close> or \<^verbatim>\<open>updateWait\<close> on the identifier finds that entry and
  succeeds: the cancel returns \<^verbatim>\<open>true\<close>, the update returns a promise and leaves the
  identifier in the map.
\<close>

theorem registry_invariant:
  "distinct (map fst (activeTimeouts (run ops init_state))) \<and>
   (map_of (activeTimeouts (run ops init_state)) i = Some e \<and> (\<forall>d. Create i d \<notin> set ops') \<longrightarrow>
      (let s1 = snd (cancelWait i reason (run ops init_state)); s2 = run ops' s1
       in i \<notin> fst ` set (activeTimeouts s1) \<and>
          cancelWait i reason' s2 = (False, s2) \<and>
          updateWait i newMs s2 = Inl (TimeoutError_new i (Some ''Timeout not found''))) \<and>
      (let s1 = fire (cleanup_timer (cleanup e)) (run ops init_state); s2 = run ops' s1
       in i \<notin> fst ` set (activeTimeouts s1) \<and>
          cancelWait i reason' s2 = (False, s2) \<and>
          updateWait i newMs s2 = Inl (TimeoutError_new i (Some ''Timeout not found''))) \<and>
      (\<exists>p s1. updateWait i newMs (run ops init_state) = Inr (p, s1) \<and>
          i \<in> fst ` set (activeTimeouts s1) \<and>
          fst (cancelWait i reason' s1) = True \<and>
          (\<exists>p' s2. updateWait i newMs' s1 = Inr (p', s2) \<and>
             i \<in> fst ` set (activeTimeouts s2))))"
proof (intro conjI impI)
  let ?s = "run ops init_state"
  have inv: "registry_ok ?s" by (rule inv_reachable)
  then show "distinct (map fst (activeTimeouts ?s))"
    by (simp add: registry_ok_def)
  assume "map_of (activeTimeouts ?s) i = Some e \<and> (\<forall>d. Create i d \<notin> set ops')"
  then have live: "map_of (activeTimeouts ?s) i = Some e" and ops': "\<forall>d. Create i d \<notin> set ops'"
    by simp_all
  have after: "cancelWait i reason' (run ops' s1) = (False, run ops' s1) \<and>
      updateWait i newMs (run ops' s1) = Inl (TimeoutError_new i (Some ''Timeout not found''))"
    if "i \<notin> fst ` set (activeTimeouts s1)" for s1
    using absent_run [OF that ops'] by (simp add: not_found)
  have "i \<notin> fst ` set (activeTimeouts (snd (cancelWait i reason ?s)))"
    by (rule cancelWait_removes [OF inv])
  with after show "let s1 = snd (cancelWait i reason ?s); s2 = run ops' s1
       in i \<notin> fst ` set (activeTimeouts s1) \<and>
          cancelWait i reason' s2 = (False, s2) \<and>
          updateWait i newMs s2 = Inl (TimeoutError_new i (Some ''Timeout not found''))"
    by (simp add: Let_def)
  have "i \<notin> fst ` set (activeTimeouts (fire (cleanup_timer (cleanup e)) ?s))"
    by (rule fire_removes [OF inv live])
  with after show "let s1 = fire (cleanup_timer (cleanup e)) ?s; s2 = run ops' s1
       in i \<notin> fst ` set (activeTimeouts s1) \<and>
          cancelWait i reason' s2 = (False, s2) \<and>
          updateWait i newMs s2 = Inl (TimeoutError_new i (Some ''Timeout not found''))"
    by (simp add: Let_def)
  from updateWait_live [OF live, of newMs] obtain s1
    where upd: "updateWait i newMs ?s = Inr (length (promises ?s), s1)"
      and reg: "activeTimeouts s1 =
        AList.update i \<lparr>controller = length (promises ?s), cleanup = Cleanup (next_timer ?s) i\<rparr>
          (AList.delete (cleanup_ident (cleanup e)) (activeTimeouts ?s))"
    by blast
  let ?new = "\<lparr>controller = length (promises ?s), cleanup = Cleanup (next_timer ?s) i\<rparr>"
  have new: "map_of (activeTimeouts s1) i = Some ?new"
    by (simp add: reg update_conv')
  then have 1: "i \<in> fst ` set (activeTimeouts s1)" "fst (cancelWait i reason' s1) = True"
    by (simp_all add: cancelWait_live reg dom_update)
  from updateWait_live [OF new, of newMs'] obtain s2
    where upd2: "updateWait i newMs' s1 = Inr (length (promises s1), s2)"
      and reg2: "activeTimeouts s2 =
        AList.update i \<lparr>controller = length (promises s1), cleanup = Cleanup (next_timer s1) i\<rparr>
          (AList.delete (cleanup_ident (cleanup ?new)) (activeTimeouts s1))"
    by blast
  have "i \<in> fst ` set (activeTimeouts s2)"
    by (simp only: reg2 dom_update) simp
  with upd2 have 2: "\<exists>p' s2. updateWait i newMs' s1 = Inr (p', s2) \<and>
      i \<in> fst ` set (activeTimeouts s2)"
    by blast
  from upd 1 2 show "\<exists>p s1. updateWait i newMs ?s = Inr (p, s1) \<and>
          i \<in> fst ` set (activeTimeouts s1) \<and> fst (cancelWait i reason' s1) = True \<and>
          (\<exists>p' s2. updateWait i newMs' s1 = Inr (p', s2) \<and>
             i \<in> fst ` set (activeTimeouts s2))"
    by blast
qed

theorem registry_invariant_witness:
  "distinct (map fst (activeTimeouts (run [Create ''a'' 100, Create ''b'' 200] init_state))) \<and>
   map_of (activeTimeouts (run [Create ''a'' 100, Create ''b'' 200] init_state)) ''a'' =
     Some \<lparr>controller = 0, cleanup = Cleanup 0 ''a''\<rparr> \<and>
   (\<forall>d. Create ''a'' d \<notin> set [Cancel ''b'' None, Create ''c'' 5]) \<and>
   ''a'' \<notin> fst ` set (activeTimeouts
      (snd (cancelWait ''a'' None (run [Create ''a'' 100, Create ''b'' 200] init_state)))) \<and>
   fst (cancelWait ''a'' None (run [Cancel ''b'' None, Create ''c'' 5]
      (snd (cancelWait ''a'' None (run [Create ''a'' 100, Create ''b'' 200] init_state))))) = False \<and>
   ''a'' \<notin> fst ` set (activeTimeouts
      (fire 0 (run [Create ''a'' 100, Create ''b'' 200] init_state))) \<and>
   updateWait ''a'' 50 (run [Cancel ''b'' None, Create ''c'' 5]
      (fire 0 (run [Create ''a'' 100, Create ''b'' 200] init_state))) =
     Inl \<lparr>name = ''TimeoutError'', message = ''Timeout not found'', code = ''ETIMEOUT'',
          ident = ''a''\<rparr> \<and>
   (\<exists>p s1. updateWait ''a'' 50 (run [Create ''a'' 100, Create ''b'' 200] init_state) = Inr (p, s1) \<and>
      ''a'' \<in> fst ` set (activeTimeouts s1) \<and> fst (cancelWait ''a'' None s1) = True \<and>
      (\<exists>p' s2. updateWait ''a'' 70 s1 = Inr (p', s2) \<and> ''a'' \<in> fst ` set (activeTimeouts s2)))"
  using registry_invariant [where ops = "[Create ''a'' 100, Create ''b'' 200]" and i = "''a''"
          and e = "\<lparr>controller = 0, cleanup = Cleanup 0 ''a''\<rparr>"
          and ops' = "[Cancel ''b'' None, Create ''c'' 5]"
          and reason = None and reason' = None and newMs = 50 and newMs' = 70]
  by (simp add: registry_eval)

text \<open>
  The claim as the specification words it fails for the removal by an update: the entry
  that \<^verbatim>\<open>waitWithId\<close> made is gone after \<^verbatim>\<open>updateWait\<close>, and the next
  \<^verbatim>\<open>cancelWait\<close> on the identifier returns \<^verbatim>\<open>true\<close>, the next \<^verbatim>\<open>updateWait\<close>
  does not throw.
\<close>

theorem update_replacement_counterexample:
  "map_of (activeTimeouts (run [Create ''a'' 500] init_state)) ''a'' =
     Some \<lparr>controller = 0, cleanup = Cleanup 0 ''a''\<rparr> \<and>
   map_of (activeTimeouts (run [Create ''a'' 500, Update ''a'' 1000] init_state)) ''a'' =
     Some \<lparr>controller = 1, cleanup = Cleanup 1 ''a''\<rparr> \<and>
   fst (cancelWait ''a'' None (run [Create ''a'' 500, Update ''a'' 1000] init_state)) = True \<and>
   updateWait ''a'' 50 (run [Create ''a'' 500, Update ''a'' 1000] init_state) \<noteq>
     Inl (TimeoutError_new ''a'' (Some ''Timeout not found''))"
  by (simp add: registry_eval)

subsection \<open>The loop of the exit handler\<close>

lemma exit_loop_settled:
  assumes "promises s ! p \<noteq> Pending"
  shows "promises (exit_loop raised ids s) ! p = promises s ! p"
  using assms
proof (induction ids arbitrary: s)
  case Nil
  show ?case by simp
next
  case (Cons i ids)
  show ?case
  proof (cases "activeTimeouts_get i s")
    case None
    with Cons show ?thesis by simp
  next
    case (Some e)
    have step: "promises (try_teardown (raised i) i e s) ! p = promises s ! p"
      by (rule try_teardown_settled [OF Cons.prems])
    with Cons.IH [of "try_teardown (raised i) i e s"] Cons.prems show ?thesis
      by (simp add: Some)
  qed
qed

lemma timers_exit_loop:
  "set (timers (exit_loop raised ids s)) \<subseteq> set (timers s)"
proof (induction ids arbitrary: s)
  case Nil
  show ?case by simp
next
  case (Cons i ids)
  show ?case
  proof (cases "activeTimeouts_get i s")
    case None
    with Cons show ?thesis by simp
  next
    case (Some e)
    from Cons [of "try_teardown (raised i) i e s"] try_teardown_fields(3) [of "raised i" i e s]
    show ?thesis
      by (simp add: Some)
  qed
qed

text \<open>
  The loop, started in a state \<open>s\<close> that still has, for every key it is going to visit,
  the entry that an invariant state \<open>s0\<close> has, with its promise pending.
\<close>

lemma exit_loop_spec:
  assumes inv: "registry_ok s0" and "distinct ids"
    and "\<forall>k\<in>set ids. \<exists>e. map_of (activeTimeouts s0) k = Some e \<and>
           map_of (activeTimeouts s) k = Some e \<and>
           controller e < length (promises s) \<and> promises s ! controller e = Pending"
  shows "console (exit_loop raised ids s) =
           console s @ List.map_filter (\<lambda>k. map_option thrown (raised k)) ids \<and>
    (\<forall>k e. map_of (activeTimeouts s0) k = Some e \<and> k \<in> set ids \<and> raised k = None \<longrightarrow>
       promises (exit_loop raised ids s) ! controller e =
         Rejected (TimeoutError_new k (Some ''Process exiting'')) \<and>
       cleanup_timer (cleanup e) \<notin> fst ` set (timers (exit_loop raised ids s)) \<and>
       k \<notin> fst ` set (activeTimeouts (exit_loop raised ids s)))"
  using assms(2,3)
proof (induction ids arbitrary: s)
  case Nil
  show ?case by simp
next
  case (Cons i ids)
  from Cons.prems(2) obtain e0 where e0: "map_of (activeTimeouts s0) i = Some e0"
    and e0s: "map_of (activeTimeouts s) i = Some e0"
    and lt: "controller e0 < length (promises s)" and pending: "promises s ! controller e0 = Pending"
    by auto
  from Cons.prems(1) have i: "i \<notin> set ids" and ids: "distinct ids"
    by simp_all
  from entry_timer [OF inv e0] have cid: "cleanup_ident (cleanup e0) = i"
    by blast
  let ?s1 = "try_teardown (raised i) i e0 s"
  have loop: "exit_loop raised (i # ids) s = exit_loop raised ids ?s1"
    using e0s by (simp add: activeTimeouts_get_def)
  have agree: "\<forall>k\<in>set ids. \<exists>e. map_of (activeTimeouts s0) k = Some e \<and>
           map_of (activeTimeouts ?s1) k = Some e \<and>
           controller e < length (promises ?s1) \<and> promises ?s1 ! controller e = Pending"
  proof
    fix k assume k: "k \<in> set ids"
    with Cons.prems(2) obtain e where e: "map_of (activeTimeouts s0) k = Some e"
      "map_of (activeTimeouts s) k = Some e" "controller e < length (promises s)"
      "promises s ! controller e = Pending"
      by auto
    from k i have ne: "k \<noteq> i"
      by blast
    with inv_same_controller [OF inv e(1) e0] have "controller e \<noteq> controller e0"
      by blast
    then have "promises ?s1 ! controller e = Pending"
      using e(4) by (simp add: try_teardown_other)
    moreover have "map_of (activeTimeouts ?s1) k = Some e"
      using e(2) ne
      by (simp add: try_teardown_def teardown_entry_def reject_def cid
            split: option.split fault.split)
    ultimately show "\<exists>e. map_of (activeTimeouts s0) k = Some e \<and>
           map_of (activeTimeouts ?s1) k = Some e \<and>
           controller e < length (promises ?s1) \<and> promises ?s1 ! controller e = Pending"
      using e(1,3) by (simp add: try_teardown_fields(4))
  qed
  note IH = Cons.IH [OF ids agree]
  have con: "console (exit_loop raised ids ?s1) =
      console s @ List.map_filter (\<lambda>k. map_option thrown (raised k)) (i # ids)"
    using IH by (cases "raised i") (simp_all add: try_teardown_fields(5))
  have ent: "promises (exit_loop raised ids ?s1) ! controller e =
         Rejected (TimeoutError_new k (Some ''Process exiting'')) \<and>
       cleanup_timer (cleanup e) \<notin> fst ` set (timers (exit_loop raised ids ?s1)) \<and>
       k \<notin> fst ` set (activeTimeouts (exit_loop raised ids ?s1))"
    if k: "map_of (activeTimeouts s0) k = Some e" "k \<in> set (i # ids)" "raised k = None" for k e
  proof (cases "k = i")
    case True
    with k e0 have e: "e = e0" and none: "raised i = None"
      by simp_all
    have s1: "?s1 = teardown_entry i e0 s"
      by (simp add: none try_teardown_None)
    have rej: "promises ?s1 ! controller e0 =
        Rejected (TimeoutError_new i (Some ''Process exiting''))"
      using lt pending by (simp add: s1 teardown_entry_def reject_def settle_pending)
    have "promises (exit_loop raised ids ?s1) ! controller e0 = promises ?s1 ! controller e0"
      by (rule exit_loop_settled) (simp add: rej)
    moreover have "cleanup_timer (cleanup e0) \<notin> fst ` set (timers ?s1)"
      by (simp add: s1 teardown_entry_def reject_def delete_notin_dom)
    then have "cleanup_timer (cleanup e0) \<notin> fst ` set (timers (exit_loop raised ids ?s1))"
      using timers_exit_loop [of raised ids ?s1] by auto
    moreover have "i \<notin> fst ` set (activeTimeouts ?s1)"
      by (simp add: s1 teardown_entry_def reject_def cid delete_notin_dom)
    then have "i \<notin> fst ` set (activeTimeouts (exit_loop raised ids ?s1))"
      using keys_exit_loop [of raised ids ?s1] by auto
    ultimately show ?thesis
      by (simp add: True e rej)
  next
    case False
    with k have "k \<in> set ids"
      by simp
    with IH k(1,3) show ?thesis by blast
  qed
  from con ent show ?case
    unfolding loop by blast
qed

text \<open>
  Claim C9. In a reachable state, the exit handler rejects the promise of every entry of
  the map with a \<^verbatim>\<open>TimeoutError\<close> whose message is \<^verbatim>\<open>'Process exiting'\<close>, clears its
  timer, and leaves the map empty and the console untouched. When calls in the
  \<^verbatim>\<open>try\<close> block throw for some of the entries, what they throw is written to the
  console, one line for each such entry and in the order of the map, nothing else
  happens to the console, no exception leaves the loop (its result is a state), and every
  entry for which nothing is thrown is still rejected, its timer cleared and its key
  deleted.
\<close>

theorem exit_handler_tears_down:
  assumes "map_of (activeTimeouts (run ops init_state)) i = Some e"
  shows "promises (on_exit (run ops init_state)) ! controller e =
           Rejected (TimeoutError_new i (Some ''Process exiting'')) \<and>
         message (TimeoutError_new i (Some ''Process exiting'')) = ''Process exiting'' \<and>
         cleanup_timer (cleanup e) \<notin> fst ` set (timers (on_exit (run ops init_state))) \<and>
         activeTimeouts (on_exit (run ops init_state)) = [] \<and>
         console (on_exit (run ops init_state)) = console (run ops init_state) \<and>
         on_exit (run ops init_state) = on_exit_raising (\<lambda>k. None) (run ops init_state) \<and>
         console (on_exit_raising raised (run ops init_state)) =
           console (run ops init_state) @
           List.map_filter (\<lambda>k. map_option thrown (raised k))
             (map fst (activeTimeouts (run ops init_state))) \<and>
         (raised i = None \<longrightarrow>
            promises (on_exit_raising raised (run ops init_state)) ! controller e =
              Rejected (TimeoutError_new i (Some ''Process exiting'')) \<and>
            cleanup_timer (cleanup e) \<notin>
              fst ` set (timers (on_exit_raising raised (run ops init_state))) \<and>
            i \<notin> fst ` set (activeTimeouts (on_exit_raising raised (run ops init_state))))"
proof -
  let ?s = "run ops init_state"
  have inv: "registry_ok ?s" by (rule inv_reachable)
  then have d: "distinct (map fst (activeTimeouts ?s))"
    by (simp add: registry_ok_def)
  have agree: "\<forall>k\<in>set (map fst (activeTimeouts ?s)).
      \<exists>e. map_of (activeTimeouts ?s) k = Some e \<and> map_of (activeTimeouts ?s) k = Some e \<and>
        controller e < length (promises ?s) \<and> promises ?s ! controller e = Pending"
  proof
    fix k assume "k \<in> set (map fst (activeTimeouts ?s))"
    then obtain e' where e': "map_of (activeTimeouts ?s) k = Some e'"
      by (cases "map_of (activeTimeouts ?s) k") (auto simp: map_of_eq_None_iff)
    from entry_timer [OF inv e'] e'
    show "\<exists>e. map_of (activeTimeouts ?s) k = Some e \<and> map_of (activeTimeouts ?s) k = Some e \<and>
        controller e < length (promises ?s) \<and> promises ?s ! controller e = Pending"
      by blast
  qed
  have spec: "console (on_exit_raising r ?s) =
      console ?s @ List.map_filter (\<lambda>k. map_option thrown (r k)) (map fst (activeTimeouts ?s)) \<and>
    (\<forall>k e. map_of (activeTimeouts ?s) k = Some e \<and> k \<in> fst ` set (activeTimeouts ?s) \<and> r k = None \<longrightarrow>
       promises (on_exit_raising r ?s) ! controller e =
         Rejected (TimeoutError_new k (Some ''Process exiting'')) \<and>
       cleanup_timer (cleanup e) \<notin> fst ` set (timers (on_exit_raising r ?s)) \<and>
       k \<notin> fst ` set (activeTimeouts (on_exit_raising r ?s)))" for r
    using exit_loop_spec [OF inv d agree, of r] by (simp add: on_exit_raising_def)
  from assms have mem: "i \<in> fst ` set (activeTimeouts ?s)"
    by (metis domI dom_map_of_conv_image_fst)
  have "k \<notin> fst ` set (activeTimeouts (on_exit ?s))" for k
  proof (cases "map_of (activeTimeouts ?s) k")
    case None
    then have "k \<notin> fst ` set (activeTimeouts ?s)"
      by (simp add: map_of_eq_None_iff)
    then show ?thesis
      using keys_exit_loop [of "\<lambda>k. None" "map fst (activeTimeouts ?s)" ?s]
      by (auto simp: on_exit_def on_exit_raising_def)
  next
    case (Some e')
    moreover from Some have "k \<in> fst ` set (activeTimeouts ?s)"
      by (metis domI dom_map_of_conv_image_fst)
    ultimately show ?thesis
      using spec [of "\<lambda>k. None"] by (simp add: on_exit_def)
  qed
  then have empty: "activeTimeouts (on_exit ?s) = []"
    by (cases "activeTimeouts (on_exit ?s)") force+
  have "List.map_filter (\<lambda>k. None) xs = []" for xs :: "string list"
    by (simp add: List.map_filter_def)
  with spec [of "\<lambda>k. None"] spec [of raised] assms mem empty show ?thesis
    by (simp add: on_exit_def TimeoutError_new_def)
qed

theorem exit_handler_tears_down_witness:
  "map_of (activeTimeouts (run [Create ''a'' 500, Create ''b'' 100, Update ''a'' 1000] init_state))
      ''a'' = Some \<lparr>controller = 2, cleanup = Cleanup 2 ''a''\<rparr> \<and>
   map fst (activeTimeouts (run [Create ''a'' 500, Create ''b'' 100, Update ''a'' 1000] init_state)) =
      [''b'', ''a''] \<and>
   promises (on_exit (run [Create ''a'' 500, Create ''b'' 100, Update ''a'' 1000] init_state)) =
      [Pending,
       Rejected \<lparr>name = ''TimeoutError'', message = ''Process exiting'', code = ''ETIMEOUT'',
                  ident = ''b''\<rparr>,
       Rejected \<lparr>name = ''TimeoutError'', message = ''Process exiting'', code = ''ETIMEOUT'',
                  ident = ''a''\<rparr>] \<and>
   timers (on_exit (run [Create ''a'' 500, Create ''b'' 100, Update ''a'' 1000] init_state)) = [] \<and>
   raise_for ''b'' (ThrowAtCleanup (JStr ''boom'')) ''a'' = None \<and>
   console (on_exit_raising (raise_for ''b'' (ThrowAtCleanup (JStr ''boom'')))
      (run [Create ''a'' 500, Create ''b'' 100, Update ''a'' 1000] init_state)) = [JStr ''boom''] \<and>
   promises (on_exit_raising (raise_for ''b'' (ThrowAtCleanup (JStr ''boom'')))
      (run [Create ''a'' 500, Create ''b'' 100, Update ''a'' 1000] init_state)) ! 2 =
     Rejected \<lparr>name = ''TimeoutError'', message = ''Process exiting'', code = ''ETIMEOUT'',
                ident = ''a''\<rparr>"
  using exit_handler_tears_down [of "[Create ''a'' 500, Create ''b'' 100, Update ''a'' 1000]" "''a''"
          "\<lparr>controller = 2, cleanup = Cleanup 2 ''a''\<rparr>"
          "raise_for ''b'' (ThrowAtCleanup (JStr ''boom''))"]
  by (simp add: registry_eval raise_for_def)

end
